theory Spec2Isabelle
  imports Complex_Main "HOL-Library.Word"
begin

section \<open>JavaScript strings\<close>

text \<open>
  A JavaScript string is a sequence of UTF-16 code units. \<open>length\<close>, \<open>slice\<close> and a
  regular expression without the \<open>u\<close> flag all work on code units; only \<open>for ... of\<close>
  walks a string by code points (a surrogate pair is one step).
\<close>

type_synonym jschar = "16 word"
type_synonym jsstring = "jschar list"

definition js :: "string \<Rightarrow> jsstring" where
  "js s = map (\<lambda>c. of_nat (of_char c)) s"

text \<open>Truthiness of a string value: the empty string is falsy.\<close>

definition truthy :: "jsstring \<Rightarrow> bool" where
  "truthy s = (s \<noteq> [])"

text \<open>The character class \<open>[ -~]\<close>; the regular expressions of the worker negate it.\<close>

definition printable :: "jschar \<Rightarrow> bool" where
  "printable c = (0x20 \<le> c \<and> c \<le> 0x7E)"

text \<open>\<open>s.replace(/[^ -~]/g, f)\<close>: every code unit outside the class is replaced by \<open>f\<close> of it.\<close>

definition replaceNonPrintable :: "(jschar \<Rightarrow> jsstring) \<Rightarrow> jsstring \<Rightarrow> jsstring" where
  "replaceNonPrintable f s = concat (map (\<lambda>c. if printable c then [c] else f c) s)"

text \<open>The white-space class of ECMAScript regular expressions: white space and line terminators.\<close>

definition isSpace :: "jschar \<Rightarrow> bool" where
  "isSpace c = (c \<in> set [0x09, 0x0A, 0x0B, 0x0C, 0x0D, 0x20, 0xA0, 0x1680, 0x2028, 0x2029,
                          0x202F, 0x205F, 0x3000, 0xFEFF]
                \<or> (0x2000 \<le> c \<and> c \<le> 0x200A))"

text \<open>
  Splitting a string at white space, as \<open>split\<close> with the pattern for one or more
  white-space characters does: the pieces between maximal runs of white space. Leading white space
  gives a leading empty piece, trailing white space a trailing one, and the empty string
  gives one empty piece.
\<close>

function splitWs :: "jsstring \<Rightarrow> jsstring list" where
  "splitWs [] = [] # []"
| "splitWs (c # cs) =
     (if isSpace c then [] # splitWs (dropWhile isSpace cs)
      else (case splitWs cs of w # ws \<Rightarrow> (c # w) # ws | [] \<Rightarrow> [c] # []))"
  by pat_completeness auto
termination
  by (relation "measure length") (auto simp: less_Suc_eq_le length_dropWhile_le)

text \<open>\<open>for (const ch of w)\<close>: a high surrogate followed by a low surrogate is one step.\<close>

definition isHighSurrogate :: "jschar \<Rightarrow> bool" where
  "isHighSurrogate c = (0xD800 \<le> c \<and> c \<le> 0xDBFF)"

definition isLowSurrogate :: "jschar \<Rightarrow> bool" where
  "isLowSurrogate c = (0xDC00 \<le> c \<and> c \<le> 0xDFFF)"

fun codePoints :: "jsstring \<Rightarrow> jsstring list" where
  "codePoints [] = []"
| "codePoints [c] = [c] # []"
| "codePoints (c # d # cs) =
     (if isHighSurrogate c \<and> isLowSurrogate d then [c, d] # codePoints cs
      else [c] # codePoints (d # cs))"

section \<open>Text preprocessing (\<open>processText\<close>)\<close>

definition arabicToLatin :: "(jschar \<times> jsstring) list" where
  "arabicToLatin =
    [(0x0627, js ''A''), (0x0628, js ''B''), (0x062A, js ''T''), (0x062B, js ''TH''),
     (0x062C, js ''J''), (0x062D, js ''H''), (0x062E, js ''KH''), (0x062F, js ''D''),
     (0x0630, js ''DH''), (0x0631, js ''R''), (0x0632, js ''Z''), (0x0633, js ''S''),
     (0x0634, js ''SH''), (0x0635, js ''S''), (0x0636, js ''D''), (0x0637, js ''T''),
     (0x0638, js ''Z''), (0x0639, js ''A''), (0x063A, js ''GH''), (0x0641, js ''F''),
     (0x0642, js ''Q''), (0x0643, js ''K''), (0x0644, js ''L''), (0x0645, js ''M''),
     (0x0646, js ''N''), (0x0629, js ''T''), (0x0640, js ''-''), (0x0647, js ''H''),
     (0x0648, js ''W''), (0x064A, js ''Y''), (0x0649, js ''A''), (0x0626, js ''A''),
     (0x0621, js ''A''), (0x0625, js ''E'')]"

text \<open>\<open>arabicToLatin[char] || '?'\<close>\<close>

definition transliterate :: "jschar \<Rightarrow> jsstring" where
  "transliterate c =
     (case map_of arabicToLatin c of
        Some s \<Rightarrow> if truthy s then s else js ''?''
      | None \<Rightarrow> js ''?'')"

text \<open>
  \<open>useUnicode\<close> is a variable of the handler; both branches of the font set-up assign
  \<open>false\<close> to it, and \<open>processText\<close> takes it here as an argument.
\<close>

definition processText :: "bool \<Rightarrow> jsstring \<Rightarrow> jsstring" where
  "processText useUnicode text =
     (if \<not> truthy text then text
      else if useUnicode then text
      else replaceNonPrintable transliterate text)"

text \<open>The fallback of the draw operations: \<open>line.replace(/[^ -~]/g, '?')\<close>.\<close>

definition fallbackText :: "jsstring \<Rightarrow> jsstring" where
  "fallbackText line = replaceNonPrintable (\<lambda>c. js ''?'') line"

section \<open>Fonts and errors of the PDF library\<close>

text \<open>
  A value caught by \<open>catch (err)\<close>: its \<open>message\<close> property when it has one, and what
  \<open>String(err)\<close> gives.
\<close>

record js_error =
  message :: "jsstring option"
  asString :: jsstring

text \<open>
  An embedded font of the library, as far as the worker uses it:
  \<open>widthOfTextAtSize\<close> measures a string at a size or raises (\<open>None\<close>), and \<open>drawText\<close> with
  this font raises (\<open>Some err\<close>) when it cannot encode the string. Numbers are modelled as
  reals.
\<close>

record font =
  widthOfTextAtSize :: "jsstring \<Rightarrow> real \<Rightarrow> real option"
  encodeError :: "jsstring \<Rightarrow> js_error option"

section \<open>Word wrap (\<open>wrapText\<close>)\<close>

definition textWidth :: "font \<Rightarrow> real \<Rightarrow> jsstring \<Rightarrow> real" where
  "textWidth fnt fsize t =
     (case widthOfTextAtSize fnt t fsize of
        Some w \<Rightarrow> w
      | None \<Rightarrow> real (length t) * fsize * 0.6)"

text \<open>
  The inner loop over the characters of an over-wide word; the state is the list of lines
  pushed so far and the current \<open>chunk\<close>.
\<close>

fun splitChars ::
  "(jsstring \<Rightarrow> real) \<Rightarrow> real \<Rightarrow> jsstring list \<Rightarrow> jsstring list \<times> jsstring
     \<Rightarrow> jsstring list \<times> jsstring" where
  "splitChars tw maxWidth [] (lines, chunk) = (lines, chunk)"
| "splitChars tw maxWidth (ch # chs) (lines, chunk) =
     (let attemptChunk = chunk @ ch in
      if tw attemptChunk \<le> maxWidth then splitChars tw maxWidth chs (lines, attemptChunk)
      else splitChars tw maxWidth chs (if truthy chunk then lines @ [chunk] else lines, ch))"

text \<open>The outer loop over the words; the state is the list of lines and \<open>current\<close>.\<close>

fun wrapWords ::
  "(jsstring \<Rightarrow> real) \<Rightarrow> real \<Rightarrow> jsstring list \<Rightarrow> jsstring list \<times> jsstring
     \<Rightarrow> jsstring list \<times> jsstring" where
  "wrapWords tw maxWidth [] (lines, current) = (lines, current)"
| "wrapWords tw maxWidth (w # ws) (lines, current) =
     (let attempt = (if truthy current then current @ js '' '' @ w else w) in
      if tw attempt \<le> maxWidth then wrapWords tw maxWidth ws (lines, attempt)
      else wrapWords tw maxWidth ws
             (splitChars tw maxWidth (codePoints w)
                (if truthy current then lines @ [current] else lines, [])))"

definition wrapText :: "bool \<Rightarrow> jsstring \<Rightarrow> real \<Rightarrow> font \<Rightarrow> real \<Rightarrow> jsstring list" where
  "wrapText useUnicode text maxWidth fnt fsize =
     (let processedText = processText useUnicode text;
          words = splitWs processedText;
          (lines, current) = wrapWords (textWidth fnt fsize) maxWidth words ([], [])
      in if truthy current then lines @ [current] else lines)"


section \<open>The PDF library, as the handler uses it\<close>

datatype standardFont = Helvetica | HelveticaBold

text \<open>What \<open>pdfDoc.save()\<close> is given: the pages and the texts drawn on them.\<close>

record drawing =
  onPage :: nat
  content :: jsstring
  atX :: real
  atY :: real
  atSize :: real
  withFont :: font

text \<open>
  The library is not part of the repository; the handler takes it here as an argument.
  \<open>create\<close> is \<open>Some err\<close> when \<open>PDFDocument.create()\<close> raises; \<open>getSize\<close> is the width and
  height of a default page; \<open>addPage n\<close> is \<open>Some err\<close> when adding a page to a document of
  \<open>n\<close> pages raises; \<open>embedFont n f\<close> is the outcome of the call of \<open>embedFont\<close> that
  \<open>n\<close> calls came before; \<open>save\<close> serialises. \<open>drawText\<close> raises as the font says
  (\<open>encodeError\<close>). The white rectangle that \<open>paintWhite\<close> draws on every page does not
  move the cursor and is not recorded.
\<close>

record pdflib =
  create :: "js_error option"
  getSize :: "real \<times> real"
  addPage :: "nat \<Rightarrow> js_error option"
  embedFont :: "nat \<Rightarrow> standardFont \<Rightarrow> js_error + font"
  save :: "nat \<Rightarrow> drawing list \<Rightarrow> js_error + 8 word list"

section \<open>Layout state and utilities\<close>

definition margin :: real where "margin = 50"
definition lineHeight :: real where "lineHeight = 18"
definition bodySize :: real where "bodySize = 12"
definition titleSize :: real where "titleSize = 26"
definition sectionHeaderSize :: real where "sectionHeaderSize = 14"
definition MAX_PARAMS :: nat where "MAX_PARAMS = 50"
definition MAX_VALUE_LEN :: nat where "MAX_VALUE_LEN = 500"

text \<open>The constants and variables of the handler that the drawing helpers close over.\<close>

record scope =
  pdf :: pdflib
  width :: real
  height :: real
  font :: font
  fontBold :: font
  useUnicode :: bool

text \<open>
  The mutable part: the number of pages of \<open>pdfDoc\<close> (\<open>page\<close> is the last one), the cursor
  \<open>y\<close> and the texts drawn. \<open>cursorTrace\<close> is a ghost field: every value assigned to \<open>y\<close>,
  in order.
\<close>

record layout =
  pages :: nat
  y :: real
  drawn :: "drawing list"
  cursorTrace :: "real list"

definition setY :: "real \<Rightarrow> layout \<Rightarrow> layout" where
  "setY v s = s\<lparr>y := v, cursorTrace := cursorTrace s @ [v]\<rparr>"

definition maxTextWidth :: "scope \<Rightarrow> real" where
  "maxTextWidth sc = width sc - margin * 2"

definition newPage :: "scope \<Rightarrow> layout \<Rightarrow> js_error + layout" where
  "newPage sc s =
     (case addPage (pdf sc) (pages s) of
        Some err \<Rightarrow> Inl err
      | None \<Rightarrow> Inr (setY (height sc - margin) (s\<lparr>pages := pages s + 1\<rparr>)))"

definition ensureSpace :: "scope \<Rightarrow> real \<Rightarrow> layout \<Rightarrow> js_error + layout" where
  "ensureSpace sc needed s = (if y s - needed < margin then newPage sc s else Inr s)"

text \<open>
  \<open>try { page.drawText(t, ...) } catch (err) { page.drawText(t.replace(/[^ -~]/g, '?'), ...) }\<close>,
  the body shared by \<open>drawWrapped\<close>, \<open>drawTitle\<close> and \<open>drawSectionHeader\<close>: the text that
  ends up on the page, or the error of the second call.
\<close>

definition tryDrawText :: "font \<Rightarrow> jsstring \<Rightarrow> js_error + jsstring" where
  "tryDrawText fnt t =
     (case encodeError fnt t of
        None \<Rightarrow> Inr t
      | Some err \<Rightarrow>
          (case encodeError fnt (fallbackText t) of
             None \<Rightarrow> Inr (fallbackText t)
           | Some err2 \<Rightarrow> Inl err2))"

definition drawAt :: "jsstring \<Rightarrow> real \<Rightarrow> real \<Rightarrow> font \<Rightarrow> layout \<Rightarrow> layout" where
  "drawAt t x fsize fnt s =
     s\<lparr>drawn := drawn s @
        [\<lparr>onPage = pages s - 1, content = t, atX = x, atY = y s, atSize = fsize,
          withFont = fnt\<rparr>]\<rparr>"

text \<open>The loop of \<open>drawWrapped\<close> over the wrapped lines.\<close>

fun drawLines :: "scope \<Rightarrow> real \<Rightarrow> real \<Rightarrow> font \<Rightarrow> jsstring list \<Rightarrow> layout
    \<Rightarrow> js_error + layout" where
  "drawLines sc x fsize fnt [] s = Inr s"
| "drawLines sc x fsize fnt (line # lines) s =
     (case ensureSpace sc lineHeight s of
        Inl err \<Rightarrow> Inl err
      | Inr s1 \<Rightarrow>
          (case tryDrawText fnt line of
             Inl err \<Rightarrow> Inl err
           | Inr t \<Rightarrow>
               drawLines sc x fsize fnt lines
                 (setY (y s1 - lineHeight) (drawAt t x fsize fnt s1))))"

definition drawWrapped :: "scope \<Rightarrow> jsstring \<Rightarrow> real \<Rightarrow> real \<Rightarrow> real \<Rightarrow> font \<Rightarrow> layout
    \<Rightarrow> js_error + layout" where
  "drawWrapped sc text x maxWidth fsize fnt s =
     drawLines sc x fsize fnt (wrapText (useUnicode sc) text maxWidth fnt fsize) s"

definition drawTitle :: "scope \<Rightarrow> jsstring \<Rightarrow> layout \<Rightarrow> js_error + layout" where
  "drawTitle sc text s =
     (case ensureSpace sc (lineHeight * 2) s of
        Inl err \<Rightarrow> Inl err
      | Inr s1 \<Rightarrow>
          (case tryDrawText (fontBold sc) (processText (useUnicode sc) text) of
             Inl err \<Rightarrow> Inl err
           | Inr t \<Rightarrow>
               Inr (setY (y s1 - lineHeight * 2) (drawAt t margin titleSize (fontBold sc) s1))))"

definition drawSectionHeader :: "scope \<Rightarrow> jsstring \<Rightarrow> layout \<Rightarrow> js_error + layout" where
  "drawSectionHeader sc text s =
     (case ensureSpace sc (lineHeight * 2) s of
        Inl err \<Rightarrow> Inl err
      | Inr s1 \<Rightarrow>
          (case tryDrawText (fontBold sc) (processText (useUnicode sc) text) of
             Inl err \<Rightarrow> Inl err
           | Inr t \<Rightarrow>
               Inr (setY (y s1 - lineHeight * 1.5)
                      (drawAt t margin sectionHeaderSize (fontBold sc) s1))))"

section \<open>The two documents\<close>

text \<open>
  After the set-up the handler is a sequence of calls of \<open>drawTitle\<close>, \<open>drawSectionHeader\<close>
  and \<open>drawWrapped(_, margin, maxTextWidth)\<close> and of decrements of \<open>y\<close>; which calls are
  made depends on the request only, never on the layout. The model lists the calls of a
  request in order and then runs the list.
\<close>

datatype command =
    DrawTitle jsstring
  | DrawSectionHeader jsstring
  | DrawWrapped jsstring
  | MoveDown real

fun exec :: "scope \<Rightarrow> command \<Rightarrow> layout \<Rightarrow> js_error + layout" where
  "exec sc (DrawTitle text) s = drawTitle sc text s"
| "exec sc (DrawSectionHeader text) s = drawSectionHeader sc text s"
| "exec sc (DrawWrapped text) s =
     drawWrapped sc text margin (maxTextWidth sc) bodySize (font sc) s"
| "exec sc (MoveDown d) s = Inr (setY (y s - d) s)"

fun execAll :: "scope \<Rightarrow> command list \<Rightarrow> layout \<Rightarrow> js_error + layout" where
  "execAll sc [] s = Inr s"
| "execAll sc (c # cs) s =
     (case exec sc c s of Inl err \<Rightarrow> Inl err | Inr s1 \<Rightarrow> execAll sc cs s1)"

text \<open>
  A request, as far as the handler reads it: \<open>url.origin\<close>, \<open>url.pathname\<close> and the
  decoded entries of \<open>url.searchParams\<close> in query order.
\<close>

record request =
  origin :: jsstring
  pathname :: jsstring
  params :: "(jsstring \<times> jsstring) list"

text \<open>\<open>url.searchParams.get(k)\<close> gives the value of the first entry named \<open>k\<close>, or null.\<close>

definition searchGet :: "(jsstring \<times> jsstring) list \<Rightarrow> jsstring \<Rightarrow> jsstring option" where
  "searchGet ps k = map_of ps k"

definition searchHas :: "(jsstring \<times> jsstring) list \<Rightarrow> jsstring \<Rightarrow> bool" where
  "searchHas ps k = (k \<in> set (map fst ps))"

definition titleParam :: "(jsstring \<times> jsstring) list \<Rightarrow> jsstring" where
  "titleParam ps =
     (case searchGet ps (js ''title'') of
        Some v \<Rightarrow> if truthy v then v else js ''PDF''
      | None \<Rightarrow> js ''PDF'')"

definition textParam :: "(jsstring \<times> jsstring) list \<Rightarrow> jsstring option" where
  "textParam ps = searchGet ps (js ''text'')"

definition nonReserved :: "jsstring \<times> jsstring \<Rightarrow> bool" where
  "nonReserved p = (fst p \<noteq> js ''title'' \<and> fst p \<noteq> js ''text'')"

definition extraParams :: "(jsstring \<times> jsstring) list \<Rightarrow> (jsstring \<times> jsstring) list" where
  "extraParams ps = take MAX_PARAMS (filter nonReserved ps)"

text \<open>The condition under which the note about the cap is drawn.\<close>

definition showsNote :: "(jsstring \<times> jsstring) list \<Rightarrow> bool" where
  "showsNote ps =
     (int (length ps) - (if searchHas ps (js ''title'') then 1 else 0)
        - (if searchHas ps (js ''text'') then 1 else 0) > int MAX_PARAMS)"

definition noteText :: jsstring where
  "noteText = js ''Note: Showing first 50 parameters (excluding title/text).''"

text \<open>The loop over \<open>extraParams\<close>: one call of \<open>drawWrapped\<close> for each entry.\<close>

definition extraLines :: "(jsstring \<times> jsstring) list \<Rightarrow> command list" where
  "extraLines ps =
     map (\<lambda>(key, rawVal). DrawWrapped (key @ js '' = '' @ take MAX_VALUE_LEN rawVal))
       (extraParams ps)"

definition disclaimerText :: "bool \<Rightarrow> jsstring" where
  "disclaimerText unicode =
     (if unicode
      then js ''This PDF supports Unicode characters. Content is rendered from URL parameters.''
      else js ''Unicode characters are transliterated. Content is rendered from URL parameters.'')"

definition echoCommands :: "bool \<Rightarrow> (jsstring \<times> jsstring) list \<Rightarrow> command list" where
  "echoCommands unicode ps =
     [DrawTitle (titleParam ps)]
     @ (case textParam ps of
          Some v \<Rightarrow>
            if truthy v then [DrawWrapped (take MAX_VALUE_LEN v), MoveDown lineHeight] else []
        | None \<Rightarrow> [])
     @ (if length (extraParams ps) > 0
        then [DrawSectionHeader (js ''Extra information'')]
             @ (if showsNote ps then [DrawWrapped noteText, MoveDown lineHeight] else [])
             @ extraLines ps
             @ [MoveDown lineHeight]
        else [])
     @ [DrawSectionHeader (js ''Disclaimer''), DrawWrapped (disclaimerText unicode)]"

text \<open>Removing one slash at the end of \<open>url.origin\<close>, as the \<open>replace\<close> call does.\<close>

definition stripSlash :: "jsstring \<Rightarrow> jsstring" where
  "stripSlash s = (if s \<noteq> [] \<and> last s = 0x2F then butlast s else s)"

definition exampleQuery :: jsstring where
  "exampleQuery =
     js ''?title='' @ [0x0645, 0x0631, 0x062D, 0x0628, 0x0627]
     @ js ''&text=This%20is%20Arabic:%20'' @ [0x0627, 0x0644, 0x0633, 0x0644, 0x0627, 0x0645]
     @ js ''%20'' @ [0x0639, 0x0644, 0x064A, 0x0643, 0x0645]"

definition instructionCommands :: "bool \<Rightarrow> jsstring \<Rightarrow> jsstring \<Rightarrow> command list" where
  "instructionCommands unicode orig path =
     [DrawTitle (js ''PDF Generator with Unicode Support''),
      DrawSectionHeader (js ''Purpose''),
      DrawWrapped (js ''This service provides a PDF file that can handle Unicode characters including Arabic text. ''
                   @ js ''Text is customized using URL parameters.''),
      MoveDown lineHeight,
      DrawSectionHeader (js ''Use Cases'')]
     @ map DrawWrapped
        [js ''- Generate PDFs with multilingual content'',
         js ''- Support Arabic, Hebrew, and other RTL languages'',
         js ''- Echo URL parameters as text with Unicode support'',
         js ''- Test international character handling'']
     @ [MoveDown lineHeight,
        DrawSectionHeader (js ''Example Usage''),
        DrawWrapped (stripSlash orig @ path @ exampleQuery),
        MoveDown (lineHeight * 2),
        DrawSectionHeader (js ''Notes'')]
     @ map DrawWrapped
        [js ''- Each value is limited to 500 characters.'',
         js ''- Up to 50 URL parameters are rendered.'',
         if unicode then js ''- Full Unicode support enabled''
         else js ''- Unicode characters are transliterated to Latin equivalents'',
         js ''- RTL languages may not render in proper direction without additional setup'']
     @ [MoveDown lineHeight,
        DrawSectionHeader (js ''Disclaimer''),
        DrawWrapped (js ''This PDF file is for testing purposes. Content is rendered directly from URL parameters.'')]"

definition commands :: "bool \<Rightarrow> request \<Rightarrow> command list" where
  "commands unicode req =
     (if length (params req) = 0 then instructionCommands unicode (origin req) (pathname req)
      else echoCommands unicode (params req))"

section \<open>The handler\<close>

text \<open>
  The font set-up: \<open>try { font = ...; fontBold = ... } catch (err) { font = ...; fontBold = ... }\<close>.
  The argument of \<open>retryFonts\<close> is the number of calls of \<open>embedFont\<close> made in the
  \<open>try\<close> block.
\<close>

definition retryFonts :: "pdflib \<Rightarrow> nat \<Rightarrow> js_error + font \<times> font" where
  "retryFonts lib n =
     (case embedFont lib n Helvetica of
        Inl err \<Rightarrow> Inl err
      | Inr f \<Rightarrow>
          (case embedFont lib (n + 1) HelveticaBold of
             Inl err \<Rightarrow> Inl err
           | Inr fb \<Rightarrow> Inr (f, fb)))"

definition embedFonts :: "pdflib \<Rightarrow> js_error + font \<times> font" where
  "embedFonts lib =
     (case embedFont lib 0 Helvetica of
        Inl err \<Rightarrow> retryFonts lib 1
      | Inr f \<Rightarrow>
          (case embedFont lib 1 HelveticaBold of
             Inl err \<Rightarrow> retryFonts lib 2
           | Inr fb \<Rightarrow> Inr (f, fb)))"

text \<open>The scope once the fonts are embedded; \<open>useUnicode\<close> is false on both paths.\<close>

definition scopeOf :: "pdflib \<Rightarrow> font \<times> font \<Rightarrow> scope" where
  "scopeOf lib fonts =
     \<lparr>pdf = lib, width = fst (getSize lib), height = snd (getSize lib),
      font = fst fonts, fontBold = snd fonts, useUnicode = False\<rparr>"

definition initialLayout :: "scope \<Rightarrow> layout" where
  "initialLayout sc =
     \<lparr>pages = 1, y = height sc - margin, drawn = [], cursorTrace = [height sc - margin]\<rparr>"

text \<open>The body of the outer \<open>try\<close> up to the call of \<open>save\<close>.\<close>

definition layoutOf :: "pdflib \<Rightarrow> request \<Rightarrow> js_error + layout" where
  "layoutOf lib req =
     (case create lib of
        Some err \<Rightarrow> Inl err
      | None \<Rightarrow>
          (case addPage lib 0 of
             Some err \<Rightarrow> Inl err
           | None \<Rightarrow>
               (case embedFonts lib of
                  Inl err \<Rightarrow> Inl err
                | Inr fonts \<Rightarrow>
                    execAll (scopeOf lib fonts) (commands False req)
                      (initialLayout (scopeOf lib fonts)))))"








section \<open>Notions used in the statements\<close>

text \<open>A string that \<open>for ... of\<close> walks in one step.\<close>

definition singleChar :: "jsstring \<Rightarrow> bool" where
  "singleChar l = (length (codePoints l) = 1)"

definition fitsOrSingle :: "(jsstring \<Rightarrow> real) \<Rightarrow> real \<Rightarrow> jsstring \<Rightarrow> bool" where
  "fitsOrSingle tw maxWidth l = (tw l \<le> maxWidth \<or> singleChar l)"

text \<open>White space occurs only as single U+0020 characters, never two in a row.\<close>

fun spacedOnce :: "jsstring \<Rightarrow> bool" where
  "spacedOnce [] = True"
| "spacedOnce [c] = (isSpace c \<longrightarrow> c = 0x20)"
| "spacedOnce (c # d # cs) =
     ((isSpace c \<longrightarrow> c = 0x20 \<and> \<not> isSpace d) \<and> spacedOnce (d # cs))"

text \<open>The handler only ever moves the cursor down.\<close>

fun downward :: "command \<Rightarrow> bool" where
  "downward (MoveDown d) = (0 \<le> d)"
| "downward _ = True"

text \<open>
  The part of the cursor invariant that the handler keeps: the cursor and every value it
  took are at most the top margin line, and every text sits between the margin lines.
\<close>

definition bounded :: "scope \<Rightarrow> layout \<Rightarrow> bool" where
  "bounded sc s =
     (y s \<le> height sc - margin
      \<and> (\<forall>v\<in>set (cursorTrace s). v \<le> height sc - margin)
      \<and> (\<forall>d\<in>set (drawn s). margin \<le> atY d \<and> atY d \<le> height sc - margin))"

text \<open>How far a call moves the cursor when no page is added.\<close>

fun advance :: "scope \<Rightarrow> command \<Rightarrow> real" where
  "advance sc (DrawTitle text) = lineHeight * 2"
| "advance sc (DrawSectionHeader text) = lineHeight * 1.5"
| "advance sc (DrawWrapped text) =
     real (length (wrapText (useUnicode sc) text (maxTextWidth sc) (font sc) bodySize))
       * lineHeight"
| "advance sc (MoveDown d) = d"

text \<open>
  Whether a call, made with the cursor at \<open>v\<close>, finds too little room above the bottom
  margin: a title or a header needs two line heights, a paragraph needs all its lines.
\<close>

fun crossesAt :: "scope \<Rightarrow> real \<Rightarrow> command \<Rightarrow> bool" where
  "crossesAt sc v (DrawTitle text) = (v - lineHeight * 2 < margin)"
| "crossesAt sc v (DrawSectionHeader text) = (v - lineHeight * 2 < margin)"
| "crossesAt sc v (DrawWrapped text) =
     (wrapText (useUnicode sc) text (maxTextWidth sc) (font sc) bodySize \<noteq> []
      \<and> v - real (length (wrapText (useUnicode sc) text (maxTextWidth sc) (font sc) bodySize))
            * lineHeight < margin)"
| "crossesAt sc v (MoveDown d) = False"

text \<open>
  Two texts drawn one after the other: the second is on the same page, at least a line
  height lower, or on the next page at \<open>topY\<close>.
\<close>

definition follows :: "real \<Rightarrow> drawing \<Rightarrow> drawing \<Rightarrow> bool" where
  "follows topY a b =
     (onPage b = onPage a \<and> atY b \<le> atY a - lineHeight
      \<or> onPage b = onPage a + 1 \<and> atY b = topY)"

fun pageOrder :: "real \<Rightarrow> drawing list \<Rightarrow> bool" where
  "pageOrder topY [] = True"
| "pageOrder topY [d] = True"
| "pageOrder topY (a # b # ds) = (follows topY a b \<and> pageOrder topY (b # ds))"

text \<open>The texts drawn are in page order, and the cursor is below the last of them.\<close>

definition stacked :: "scope \<Rightarrow> layout \<Rightarrow> bool" where
  "stacked sc s =
     (drawn s \<noteq> [] \<and> 1 \<le> pages s
      \<and> pageOrder (height sc - margin) (drawn s)
      \<and> onPage (last (drawn s)) = pages s - 1
      \<and> y s \<le> atY (last (drawn s)) - lineHeight)"

text \<open>
  What ends up on the page for a string: the string, or its replacement with question
  marks when \<open>drawText\<close> raised for the string.
\<close>

definition rendered :: "font \<Rightarrow> jsstring \<Rightarrow> jsstring" where
  "rendered fnt t = (if encodeError fnt t = None then t else fallbackText t)"

text \<open>The lines of a paragraph as the handler wraps it.\<close>

definition bodyLines :: "scope \<Rightarrow> jsstring \<Rightarrow> jsstring list" where
  "bodyLines sc text = wrapText (useUnicode sc) text (maxTextWidth sc) (font sc) bodySize"

text \<open>The texts that a call puts on the page, in order.\<close>

fun texts :: "scope \<Rightarrow> command \<Rightarrow> jsstring list" where
  "texts sc (DrawTitle text) = [rendered (fontBold sc) (processText (useUnicode sc) text)]"
| "texts sc (DrawSectionHeader text) =
     [rendered (fontBold sc) (processText (useUnicode sc) text)]"
| "texts sc (DrawWrapped text) = map (rendered (font sc)) (bodyLines sc text)"
| "texts sc (MoveDown d) = []"


subsection \<open>Sample inputs\<close>

definition encodingError :: js_error where
  "encodingError =
     \<lparr>message = Some (js ''WinAnsi cannot encode''),
      asString = js ''Error: WinAnsi cannot encode''\<rparr>"

text \<open>
  A font of fixed pitch, half the size wide for each code unit, that draws characters
  U+0020 to U+007E only.
\<close>

definition halfEm :: font where
  "halfEm =
     \<lparr>widthOfTextAtSize = (\<lambda>t fsize. Some (real (length t) * fsize / 2)),
      encodeError = (\<lambda>t. if list_all printable t then None else Some encodingError)\<rparr>"

text \<open>A library that never raises, with Letter pages.\<close>

definition sampleLib :: pdflib where
  "sampleLib =
     \<lparr>create = None, getSize = (612, 792), addPage = (\<lambda>n. None),
      embedFont = (\<lambda>n f. Inr halfEm), save = (\<lambda>n ds. Inr [0x25, 0x50, 0x44, 0x46])\<rparr>"




definition urlOf :: "(jsstring \<times> jsstring) list \<Rightarrow> request" where
  "urlOf ps = \<lparr>origin = js ''https://pdfthis.example'', pathname = js ''/'', params = ps\<rparr>"

text \<open>\<open>?k=v&k=v&...\<close> with 34 entries.\<close>

definition manyParams :: request where
  "manyParams = urlOf (replicate 34 (js ''k'', js ''v''))"

text \<open>\<open>?title=a&title=b&k=v&...\<close> with 50 entries \<open>k=v\<close>.\<close>

definition twoTitles :: "(jsstring \<times> jsstring) list" where
  "twoTitles =
     [(js ''title'', js ''a''), (js ''title'', js ''b'')] @ replicate 50 (js ''k'', js ''v'')"





text \<open>The library with A4 pages, and \<open>?k=v&k=v&...\<close> with 37 entries.\<close>

definition a4Lib :: pdflib where
  "a4Lib = sampleLib\<lparr>getSize := (595.28, 841.89)\<rparr>"

definition manyParamsA4 :: request where
  "manyParamsA4 = urlOf (replicate 37 (js ''k'', js ''v''))"

text \<open>\<open>?title=a&x=1&title=b&x=2\<close>\<close>

definition repeated :: request where
  "repeated = urlOf [(js ''title'', js ''a''), (js ''x'', js ''1''),
                     (js ''title'', js ''b''), (js ''x'', js ''2'')]"

text \<open>\<open>?text=aaa...\<close> with 501 characters.\<close>

definition longText :: request where
  "longText = urlOf [(js ''text'', replicate 501 0x61)]"

section \<open>Word wrap: what the lines are\<close>

lemma codePoints_single: "ch \<in> set (codePoints w) \<Longrightarrow> singleChar ch"
  by (induction w rule: codePoints.induct) (auto simp: singleChar_def split: if_splits)

lemma splitChars_inv:
  assumes "\<forall>ch\<in>set chs. singleChar ch"
    and "\<forall>l\<in>set lines. fitsOrSingle tw mw l"
    and "chunk = [] \<or> fitsOrSingle tw mw chunk"
    and "splitChars tw mw chs (lines, chunk) = (lines', chunk')"
  shows "(\<forall>l\<in>set lines'. fitsOrSingle tw mw l) \<and> (chunk' = [] \<or> fitsOrSingle tw mw chunk')"
  using assms
proof (induction chs arbitrary: lines chunk)
  case Nil
  then show ?case by simp
next
  case (Cons ch chs)
  have rest: "\<forall>c\<in>set chs. singleChar c" using Cons.prems(1) by simp
  show ?case
  proof (cases "tw (chunk @ ch) \<le> mw")
    case True
    with Cons.prems have "splitChars tw mw chs (lines, chunk @ ch) = (lines', chunk')" by simp
    moreover have "fitsOrSingle tw mw (chunk @ ch)" using True by (simp add: fitsOrSingle_def)
    ultimately show ?thesis using Cons.IH[of lines "chunk @ ch"] Cons.prems(2) rest by blast
  next
    case False
    let ?ls = "if truthy chunk then lines @ [chunk] else lines"
    from False Cons.prems have run: "splitChars tw mw chs (?ls, ch) = (lines', chunk')" by simp
    have "\<forall>l\<in>set ?ls. fitsOrSingle tw mw l"
      using Cons.prems(2,3) by (auto simp: truthy_def)
    moreover have "fitsOrSingle tw mw ch" using Cons.prems(1) by (simp add: fitsOrSingle_def)
    ultimately show ?thesis using Cons.IH[OF _ _ _ run] rest by blast
  qed
qed

lemma wrapWords_inv:
  assumes "\<forall>l\<in>set lines. fitsOrSingle tw mw l"
    and "current = [] \<or> fitsOrSingle tw mw current"
    and "wrapWords tw mw ws (lines, current) = (lines', current')"
  shows "(\<forall>l\<in>set lines'. fitsOrSingle tw mw l)
       \<and> (current' = [] \<or> fitsOrSingle tw mw current')"
  using assms
proof (induction ws arbitrary: lines current)
  case Nil
  then show ?case by simp
next
  case (Cons w ws)
  let ?attempt = "if truthy current then current @ js '' '' @ w else w"
  show ?case
  proof (cases "tw ?attempt \<le> mw")
    case True
    with Cons.prems have run: "wrapWords tw mw ws (lines, ?attempt) = (lines', current')"
      by (simp add: Let_def)
    have "fitsOrSingle tw mw ?attempt" using True by (simp add: fitsOrSingle_def)
    then show ?thesis using Cons.IH[OF _ _ run] Cons.prems(1) by blast
  next
    case False
    let ?ls = "if truthy current then lines @ [current] else lines"
    obtain l1 c1 where sc: "splitChars tw mw (codePoints w) (?ls, []) = (l1, c1)"
      by (cases "splitChars tw mw (codePoints w) (?ls, [])")
    from False Cons.prems sc have run: "wrapWords tw mw ws (l1, c1) = (lines', current')"
      by (simp add: Let_def)
    have "\<forall>l\<in>set ?ls. fitsOrSingle tw mw l"
      using Cons.prems(1,2) by (auto simp: truthy_def)
    then have "(\<forall>l\<in>set l1. fitsOrSingle tw mw l) \<and> (c1 = [] \<or> fitsOrSingle tw mw c1)"
      using splitChars_inv[OF _ _ _ sc] codePoints_single by blast
    then show ?thesis using Cons.IH[OF _ _ run] by blast
  qed
qed

lemmas wrap_eval =
  wrapText_def processText_def truthy_def js_def replaceNonPrintable_def printable_def
  isSpace_def textWidth_def halfEm_def singleChar_def isHighSurrogate_def isLowSurrogate_def

text \<open>
  Claim C1, as amended. Every line that \<open>wrapText\<close> returns either measures at most the
  maximum width, by the measure \<open>textWidth\<close> used while wrapping, or is a single
  character: the hard split starts a new chunk with the character that did not fit
  without measuring it alone, so a character wider than the maximum width is a line of its
  own.
\<close>

theorem wrapText_line_fits_or_single:
  "\<forall>l \<in> set (wrapText unicode text maxWidth fnt fsize).
     textWidth fnt fsize l \<le> maxWidth \<or> singleChar l"
proof -
  obtain lines current where
    run: "wrapWords (textWidth fnt fsize) maxWidth (splitWs (processText unicode text)) ([], [])
            = (lines, current)"
    by (cases "wrapWords (textWidth fnt fsize) maxWidth (splitWs (processText unicode text))
                 ([], [])")
  have inv: "(\<forall>l\<in>set lines. fitsOrSingle (textWidth fnt fsize) maxWidth l)
      \<and> (current = [] \<or> fitsOrSingle (textWidth fnt fsize) maxWidth current)"
    using wrapWords_inv[OF _ _ run] by simp
  have "wrapText unicode text maxWidth fnt fsize
          = (if truthy current then lines @ [current] else lines)"
    using run by (simp add: wrapText_def)
  then show ?thesis using inv by (auto simp: fitsOrSingle_def truthy_def)
qed

theorem wrapText_line_fits_or_single_witness:
  "wrapText False (js ''ab cd'') 20 halfEm 12 = [js ''ab'', js ''cd'']
   \<and> (textWidth halfEm 12 (js ''ab'') \<le> 20 \<or> singleChar (js ''ab''))
   \<and> (textWidth halfEm 12 (js ''cd'') \<le> 20 \<or> singleChar (js ''cd''))"
proof -
  have e: "wrapText False (js ''ab cd'') 20 halfEm 12 = [js ''ab'', js ''cd'']"
    by (simp add: wrap_eval)
  show ?thesis
    using wrapText_line_fits_or_single[of False "js ''ab cd''" 20 halfEm 12] unfolding e
    by simp
qed

text \<open>
  The claim as stated fails where one character is wider than the maximum width: at
  width 5 the lines of \<open>ab\<close> are \<open>a\<close> and \<open>b\<close>, each 6 wide.
\<close>

theorem wrapText_overwide_counterexample:
  "wrapText False (js ''ab'') 5 halfEm 12 = [js ''a'', js ''b'']
   \<and> textWidth halfEm 12 (js ''a'') = 6 \<and> \<not> textWidth halfEm 12 (js ''a'') \<le> 5"
  by (simp add: wrap_eval)

section \<open>Word wrap of a short string\<close>

lemma splitWs_not_Nil: "splitWs p \<noteq> []"
  by (induction p rule: splitWs.induct) (auto split: list.splits)

lemma spacedOnce_tail: "spacedOnce (c # cs) \<Longrightarrow> spacedOnce cs"
  by (cases cs) auto

lemma spacedOnce_space:
  "spacedOnce (c # cs) \<Longrightarrow> isSpace c \<Longrightarrow> c = 0x20 \<and> dropWhile isSpace cs = cs"
  by (cases cs) auto

lemma splitWs_join:
  "spacedOnce p \<Longrightarrow> splitWs p = w # ws \<Longrightarrow> p = w @ concat (map (\<lambda>v. js '' '' @ v) ws)"
proof (induction p arbitrary: w ws rule: splitWs.induct)
  case 1
  then show ?case by simp
next
  case (2 c cs)
  obtain w' ws' where sp: "splitWs cs = w' # ws'"
    using splitWs_not_Nil by (cases "splitWs cs") auto
  show ?case
  proof (cases "isSpace c")
    case True
    with "2.prems"(1) have c: "c = 0x20" and dw: "dropWhile isSpace cs = cs"
      using spacedOnce_space by blast+
    have "cs = w' @ concat (map (\<lambda>v. js '' '' @ v) ws')"
      using "2.IH"(1)[OF True, of w' ws'] "2.prems"(1) sp dw spacedOnce_tail by simp
    moreover have "w = []" "ws = w' # ws'" using "2.prems"(2) True sp dw by simp_all
    ultimately show ?thesis using c by (simp add: js_def)
  next
    case False
    have "cs = w' @ concat (map (\<lambda>v. js '' '' @ v) ws')"
      using "2.IH"(2)[OF False _ sp] "2.prems"(1) spacedOnce_tail by blast
    moreover have "w = c # w'" "ws = ws'" using "2.prems"(2) False sp by simp_all
    ultimately show ?thesis by simp
  qed
qed

lemma splitWs_first_word:
  "p \<noteq> [] \<Longrightarrow> \<not> isSpace (hd p) \<Longrightarrow> splitWs p = w # ws \<Longrightarrow> w \<noteq> []"
  by (cases p) (auto split: list.splits)

lemma wrapWords_all_fit:
  assumes "current \<noteq> []"
    and "\<forall>j\<le>length ws. tw (current @ concat (map (\<lambda>v. js '' '' @ v) (take j ws))) \<le> mw"
  shows "wrapWords tw mw ws (lines, current)
           = (lines, current @ concat (map (\<lambda>v. js '' '' @ v) ws))"
  using assms
proof (induction ws arbitrary: current)
  case Nil
  then show ?case by simp
next
  case (Cons w ws)
  have fit1: "tw (current @ js '' '' @ w) \<le> mw"
    using Cons.prems(2)[rule_format, of 1] by simp
  have rest: "\<forall>j\<le>length ws.
      tw ((current @ js '' '' @ w) @ concat (map (\<lambda>v. js '' '' @ v) (take j ws))) \<le> mw"
  proof (intro allI impI)
    fix j assume "j \<le> length ws"
    then show "tw ((current @ js '' '' @ w) @ concat (map (\<lambda>v. js '' '' @ v) (take j ws)))
                 \<le> mw"
      using Cons.prems(2)[rule_format, of "Suc j"] by simp
  qed
  have "wrapWords tw mw ws (lines, current @ js '' '' @ w)
          = (lines, (current @ js '' '' @ w) @ concat (map (\<lambda>v. js '' '' @ v) ws))"
    using Cons.IH[OF _ rest] Cons.prems(1) by simp
  then show ?case using fit1 Cons.prems(1) by (simp add: truthy_def)
qed

lemma take_concat_prefix:
  "take (length (w @ concat (map f (take j ws)))) (w @ concat (map f ws))
     = w @ concat (map f (take j ws))"
proof -
  have "concat (map f ws) = concat (map f (take j ws)) @ concat (map f (drop j ws))"
    by (metis append_take_drop_id concat_append map_append)
  then show ?thesis by simp
qed

text \<open>
  Claim C4, as amended. Let \<open>p\<close> be the text after \<open>processText\<close>. If \<open>p\<close> is not empty,
  does not start with white space, has white space only as single U+0020 characters, and
  \<open>p\<close> and each of its prefixes measure at most the maximum width, then \<open>wrapText\<close>
  returns the one line \<open>p\<close>.
\<close>

theorem wrapText_short_is_one_line:
  assumes "processText unicode text = p"
    and "p \<noteq> []" and "\<not> isSpace (hd p)" and "spacedOnce p"
    and "\<forall>k\<le>length p. textWidth fnt fsize (take k p) \<le> maxWidth"
  shows "wrapText unicode text maxWidth fnt fsize = [p]"
proof -
  let ?tw = "textWidth fnt fsize"
  let ?f = "\<lambda>v. js '' '' @ v"
  obtain w ws where sp: "splitWs p = w # ws"
    using splitWs_not_Nil by (cases "splitWs p") auto
  have w: "w \<noteq> []" using splitWs_first_word[OF assms(2,3) sp] .
  have p: "p = w @ concat (map ?f ws)" using splitWs_join[OF assms(4) sp] .
  have pre: "?tw (w @ concat (map ?f (take j ws))) \<le> maxWidth" for j
  proof -
    have "w @ concat (map ?f (take j ws))
            = take (length (w @ concat (map ?f (take j ws)))) p"
      using take_concat_prefix[of w ?f j ws] p by simp
    moreover have "length (w @ concat (map ?f (take j ws))) \<le> length p"
      by (metis calculation length_take min.cobounded2 take_all_iff linorder_le_cases)
    ultimately show ?thesis using assms(5) by metis
  qed
  have fit1: "?tw w \<le> maxWidth" using pre[of 0] by simp
  have "wrapWords ?tw maxWidth ws ([], w) = ([], w @ concat (map ?f ws))"
    using wrapWords_all_fit[OF w, of ws ?tw maxWidth "[]"] pre by blast
  then have "wrapWords ?tw maxWidth (splitWs p) ([], []) = ([], p)"
    using sp fit1 p by (simp add: truthy_def)
  then show ?thesis using assms(1,2) by (simp add: wrapText_def truthy_def)
qed

lemma textWidth_halfEm: "textWidth halfEm 12 t = real (length t) * 6"
  by (simp add: textWidth_def halfEm_def)

theorem wrapText_short_is_one_line_witness:
  "wrapText False (js ''ab cd'') 512 halfEm 12 = [js ''ab cd'']"
proof -
  have p: "processText False (js ''ab cd'') = js ''ab cd''" by (simp add: wrap_eval)
  have "\<forall>k\<le>length (js ''ab cd''). textWidth halfEm 12 (take k (js ''ab cd'')) \<le> 512"
    by (simp add: textWidth_halfEm js_def)
  moreover have "js ''ab cd'' \<noteq> []" "\<not> isSpace (hd (js ''ab cd''))" "spacedOnce (js ''ab cd'')"
    by (simp_all add: wrap_eval)
  ultimately show ?thesis
    using wrapText_short_is_one_line[OF p] by blast
qed

text \<open>
  The claim as stated fails for a string with two spaces in a row, whose line has one
  space, and for the empty string, which gives no line. Both fit.
\<close>

theorem wrapText_short_counterexample:
  "textWidth halfEm 12 (js ''a  b'') \<le> 512
   \<and> processText False (js ''a  b'') = js ''a  b''
   \<and> wrapText False (js ''a  b'') 512 halfEm 12 = [js ''a b'']
   \<and> textWidth halfEm 12 (js '''') \<le> 512
   \<and> wrapText False (js '''') 512 halfEm 12 = []"
  by (simp add: wrap_eval)

section \<open>The texts drawn grow\<close>

text \<open>Drawing only appends to the texts drawn.\<close>

lemma drawn_ensureSpace: "ensureSpace sc n s = Inr s1 \<Longrightarrow> drawn s1 = drawn s"
  by (auto simp: ensureSpace_def newPage_def setY_def split: if_splits option.splits)

lemma drawn_drawLines:
  "drawLines sc x fsize fnt ls s = Inr s' \<Longrightarrow> \<exists>more. drawn s' = drawn s @ more"
proof (induction ls arbitrary: s)
  case Nil
  then show ?case by simp
next
  case (Cons l ls)
  from Cons.prems obtain s1 t where
    e: "ensureSpace sc lineHeight s = Inr s1" and
    r: "drawLines sc x fsize fnt ls (setY (y s1 - lineHeight) (drawAt t x fsize fnt s1)) = Inr s'"
    by (auto split: sum.splits)
  from Cons.IH[OF r] drawn_ensureSpace[OF e] show ?case
    by (auto simp: setY_def drawAt_def)
qed

lemma drawn_exec: "exec sc c s = Inr s' \<Longrightarrow> \<exists>more. drawn s' = drawn s @ more"
proof (cases c)
  case (DrawTitle t)
  assume "exec sc c s = Inr s'"
  then show ?thesis using DrawTitle drawn_ensureSpace
    by (fastforce simp: drawTitle_def setY_def drawAt_def split: sum.splits)
next
  case (DrawSectionHeader t)
  assume "exec sc c s = Inr s'"
  then show ?thesis using DrawSectionHeader drawn_ensureSpace
    by (fastforce simp: drawSectionHeader_def setY_def drawAt_def split: sum.splits)
next
  case (DrawWrapped t)
  assume "exec sc c s = Inr s'"
  then show ?thesis using DrawWrapped drawn_drawLines by (simp add: drawWrapped_def)
next
  case (MoveDown d)
  assume "exec sc c s = Inr s'"
  then show ?thesis using MoveDown by (auto simp: setY_def)
qed

lemma drawn_execAll: "execAll sc cs s = Inr s' \<Longrightarrow> \<exists>more. drawn s' = drawn s @ more"
proof (induction cs arbitrary: s)
  case Nil
  then show ?case by simp
next
  case (Cons c cs)
  from Cons.prems obtain s1 where
    e: "exec sc c s = Inr s1" and r: "execAll sc cs s1 = Inr s'"
    by (auto split: sum.splits)
  from drawn_exec[OF e] Cons.IH[OF r] show ?case by auto
qed

section \<open>The cursor and the pages\<close>

lemma bounded_newPage:
  "newPage sc s = Inr s1 \<Longrightarrow> bounded sc s \<Longrightarrow>
     bounded sc s1 \<and> y s1 = height sc - margin \<and> pages s1 = pages s + 1"
  by (auto simp: newPage_def bounded_def setY_def split: option.splits)

lemma bounded_ensureSpace:
  assumes "ensureSpace sc needed s = Inr s1" and "bounded sc s"
    and "0 \<le> needed" and "2 * margin \<le> height sc"
  shows "bounded sc s1 \<and> margin \<le> y s1 \<and> pages s \<le> pages s1"
proof (cases "y s - needed < margin")
  case True
  then have "newPage sc s = Inr s1" using assms(1) by (simp add: ensureSpace_def)
  from bounded_newPage[OF this assms(2)] assms(4) show ?thesis by simp
next
  case False
  then have "s1 = s" using assms(1) by (simp add: ensureSpace_def)
  then show ?thesis using assms(2,3) False by simp
qed

lemma bounded_draw_step:
  assumes "bounded sc s1" and "margin \<le> y s1" and "0 \<le> d"
  shows "bounded sc (setY (y s1 - d) (drawAt t x fsize fnt s1))"
  using assms by (auto simp: bounded_def setY_def drawAt_def)

lemma pages_draw_step [simp]: "pages (setY v (drawAt t x fsize fnt s1)) = pages s1"
  by (simp add: setY_def drawAt_def)

lemma y_setY [simp]: "y (setY v s) = v"
  by (simp add: setY_def)

lemma bounded_drawLines:
  assumes "drawLines sc x fsize fnt ls s = Inr s'" and "bounded sc s"
    and "2 * margin \<le> height sc"
  shows "bounded sc s' \<and> pages s \<le> pages s'"
  using assms(1,2)
proof (induction ls arbitrary: s)
  case Nil
  then show ?case by simp
next
  case (Cons l ls)
  from Cons.prems(1) obtain s1 t where
    e: "ensureSpace sc lineHeight s = Inr s1" and
    r: "drawLines sc x fsize fnt ls (setY (y s1 - lineHeight) (drawAt t x fsize fnt s1)) = Inr s'"
    by (auto split: sum.splits)
  have b1: "bounded sc s1 \<and> margin \<le> y s1 \<and> pages s \<le> pages s1"
    using bounded_ensureSpace[OF e Cons.prems(2) _ assms(3)] by (simp add: lineHeight_def)
  then have "bounded sc (setY (y s1 - lineHeight) (drawAt t x fsize fnt s1))"
    using bounded_draw_step[of sc s1 lineHeight] by (simp add: lineHeight_def)
  from Cons.IH[OF r this] b1 show ?case by simp
qed

lemma bounded_drawTitle:
  assumes "drawTitle sc text s = Inr s'" and "bounded sc s" and "2 * margin \<le> height sc"
  shows "bounded sc s' \<and> pages s \<le> pages s'"
proof -
  from assms(1) obtain s1 t where
    e: "ensureSpace sc (lineHeight * 2) s = Inr s1" and
    r: "s' = setY (y s1 - lineHeight * 2) (drawAt t margin titleSize (fontBold sc) s1)"
    by (auto simp: drawTitle_def split: sum.splits)
  have b1: "bounded sc s1 \<and> margin \<le> y s1 \<and> pages s \<le> pages s1"
    using bounded_ensureSpace[OF e assms(2) _ assms(3)] by (simp add: lineHeight_def)
  then show ?thesis
    using bounded_draw_step[of sc s1 "lineHeight * 2"] r by (simp add: lineHeight_def)
qed

lemma bounded_drawSectionHeader:
  assumes "drawSectionHeader sc text s = Inr s'" and "bounded sc s"
    and "2 * margin \<le> height sc"
  shows "bounded sc s' \<and> pages s \<le> pages s'"
proof -
  from assms(1) obtain s1 t where
    e: "ensureSpace sc (lineHeight * 2) s = Inr s1" and
    r: "s' = setY (y s1 - lineHeight * 1.5)
               (drawAt t margin sectionHeaderSize (fontBold sc) s1)"
    by (auto simp: drawSectionHeader_def split: sum.splits)
  have b1: "bounded sc s1 \<and> margin \<le> y s1 \<and> pages s \<le> pages s1"
    using bounded_ensureSpace[OF e assms(2) _ assms(3)] by (simp add: lineHeight_def)
  then show ?thesis
    using bounded_draw_step[of sc s1 "lineHeight * 1.5"] r by (simp add: lineHeight_def)
qed

lemma bounded_exec:
  assumes "exec sc c s = Inr s'" and "bounded sc s" and "downward c"
    and "2 * margin \<le> height sc"
  shows "bounded sc s' \<and> pages s \<le> pages s'"
proof (cases c)
  case (DrawTitle t)
  then show ?thesis using assms bounded_drawTitle by simp
next
  case (DrawSectionHeader t)
  then show ?thesis using assms bounded_drawSectionHeader by simp
next
  case (DrawWrapped t)
  then show ?thesis using assms bounded_drawLines by (simp add: drawWrapped_def)
next
  case (MoveDown d)
  then show ?thesis using assms by (auto simp: bounded_def setY_def)
qed

lemma bounded_execAll:
  assumes "execAll sc cs s = Inr s'" and "bounded sc s" and "\<forall>c\<in>set cs. downward c"
    and "2 * margin \<le> height sc"
  shows "bounded sc s' \<and> pages s \<le> pages s'"
  using assms(1,2,3)
proof (induction cs arbitrary: s)
  case Nil
  then show ?case by simp
next
  case (Cons c cs)
  from Cons.prems(1) obtain s1 where
    e: "exec sc c s = Inr s1" and r: "execAll sc cs s1 = Inr s'"
    by (auto split: sum.splits)
  have b1: "bounded sc s1 \<and> pages s \<le> pages s1"
    using bounded_exec[OF e Cons.prems(2) _ assms(4)] Cons.prems(3) by simp
  from Cons.IH[OF r] b1 Cons.prems(3) show ?case by fastforce
qed

text \<open>Lines drawn without a new page move the cursor by their number and stay above
  the margin.\<close>

lemma ensureSpace_same_page:
  assumes "ensureSpace sc needed s = Inr s1" and "pages s1 = pages s"
  shows "s1 = s \<and> margin \<le> y s - needed"
proof (cases "y s - needed < margin")
  case True
  then have "newPage sc s = Inr s1" using assms(1) by (simp add: ensureSpace_def)
  then have "pages s1 = pages s + 1"
    by (auto simp: newPage_def setY_def split: option.splits)
  then show ?thesis using assms(2) by simp
next
  case False
  then show ?thesis using assms(1) by (simp add: ensureSpace_def)
qed

lemma drawLines_same_page:
  assumes "drawLines sc x fsize fnt ls s = Inr s'" and "pages s' = pages s"
    and "bounded sc s" and "2 * margin \<le> height sc"
  shows "y s' = y s - real (length ls) * lineHeight \<and> (ls \<noteq> [] \<longrightarrow> margin \<le> y s')"
  using assms(1,2,3)
proof (induction ls arbitrary: s)
  case Nil
  then show ?case by simp
next
  case (Cons l ls)
  from Cons.prems(1) obtain s1 t where
    e: "ensureSpace sc lineHeight s = Inr s1" and
    r: "drawLines sc x fsize fnt ls (setY (y s1 - lineHeight) (drawAt t x fsize fnt s1)) = Inr s'"
    by (auto split: sum.splits)
  let ?s2 = "setY (y s1 - lineHeight) (drawAt t x fsize fnt s1)"
  have b1: "bounded sc s1 \<and> margin \<le> y s1 \<and> pages s \<le> pages s1"
    using bounded_ensureSpace[OF e Cons.prems(3) _ assms(4)] by (simp add: lineHeight_def)
  then have b2: "bounded sc ?s2"
    using bounded_draw_step[of sc s1 lineHeight] by (simp add: lineHeight_def)
  have "pages ?s2 \<le> pages s'" using bounded_drawLines[OF r b2 assms(4)] by simp
  then have same1: "pages s1 = pages s" using b1 Cons.prems(2) by simp
  from ensureSpace_same_page[OF e same1]
  have s1: "s1 = s" and room: "margin \<le> y s - lineHeight" by simp_all
  have "pages s' = pages ?s2" using Cons.prems(2) same1 by simp
  from Cons.IH[OF r this b2]
  have ih: "y s' = y ?s2 - real (length ls) * lineHeight" "ls \<noteq> [] \<longrightarrow> margin \<le> y s'"
    by blast+
  have y2: "y ?s2 = y s - lineHeight" using s1 by simp
  have "y s' = y s - real (length (l # ls)) * lineHeight"
    using ih(1) y2 by (simp add: algebra_simps)
  moreover have "margin \<le> y s'"
  proof (cases ls)
    case Nil
    then have "s' = ?s2" using r by simp
    then show ?thesis using y2 room by simp
  next
    case (Cons a as)
    then show ?thesis using ih(2) by simp
  qed
  ultimately show ?case by simp
qed

text \<open>A paragraph of more lines than a page holds adds a page.\<close>

lemma drawLines_new_page:
  assumes "drawLines sc x fsize fnt ls s = Inr s'" and "bounded sc s"
    and "2 * margin \<le> height sc"
    and "height sc - 2 * margin < real (length ls) * lineHeight"
  shows "pages s < pages s'"
proof (rule ccontr)
  assume "\<not> pages s < pages s'"
  then have same: "pages s' = pages s"
    using bounded_drawLines[OF assms(1,2,3)] by simp
  have ne: "ls \<noteq> []"
  proof
    assume "ls = []"
    then show False using assms(3,4) by simp
  qed
  from drawLines_same_page[OF assms(1) same assms(2,3)] ne
  have "y s' = y s - real (length ls) * lineHeight" "margin \<le> y s'" by simp_all
  moreover have "y s \<le> height sc - margin" using assms(2) by (simp add: bounded_def)
  ultimately show False using assms(4) by simp
qed

lemma drawTitle_same_page:
  assumes "drawTitle sc text s = Inr s'" and "pages s' = pages s"
  shows "y s' = y s - lineHeight * 2 \<and> margin \<le> y s'"
proof -
  from assms(1) obtain s1 t where
    e: "ensureSpace sc (lineHeight * 2) s = Inr s1" and
    r: "s' = setY (y s1 - lineHeight * 2) (drawAt t margin titleSize (fontBold sc) s1)"
    by (auto simp: drawTitle_def split: sum.splits)
  have "pages s1 = pages s" using r assms(2) by simp
  from ensureSpace_same_page[OF e this] r show ?thesis by simp
qed

lemma drawSectionHeader_same_page:
  assumes "drawSectionHeader sc text s = Inr s'" and "pages s' = pages s"
  shows "y s' = y s - lineHeight * 1.5 \<and> margin \<le> y s'"
proof -
  from assms(1) obtain s1 t where
    e: "ensureSpace sc (lineHeight * 2) s = Inr s1" and
    r: "s' = setY (y s1 - lineHeight * 1.5)
               (drawAt t margin sectionHeaderSize (fontBold sc) s1)"
    by (auto simp: drawSectionHeader_def split: sum.splits)
  have "pages s1 = pages s" using r assms(2) by simp
  from ensureSpace_same_page[OF e this] r show ?thesis by (simp add: lineHeight_def)
qed

lemma exec_same_page:
  assumes "exec sc c s = Inr s'" and "pages s' = pages s" and "bounded sc s"
    and "2 * margin \<le> height sc"
  shows "y s' = y s - advance sc c"
proof (cases c)
  case (DrawTitle t)
  then show ?thesis using assms drawTitle_same_page by simp
next
  case (DrawSectionHeader t)
  then show ?thesis using assms drawSectionHeader_same_page by simp
next
  case (DrawWrapped t)
  then show ?thesis using assms drawLines_same_page by (simp add: drawWrapped_def)
next
  case (MoveDown d)
  then show ?thesis using assms by (auto simp: setY_def)
qed

lemma execAll_same_page:
  assumes "execAll sc cs s = Inr s'" and "pages s' = pages s" and "bounded sc s"
    and "\<forall>c\<in>set cs. downward c" and "2 * margin \<le> height sc"
  shows "y s' = y s - sum_list (map (advance sc) cs)"
  using assms(1,2,3,4)
proof (induction cs arbitrary: s)
  case Nil
  then show ?case by simp
next
  case (Cons c cs)
  from Cons.prems(1) obtain s1 where
    e: "exec sc c s = Inr s1" and r: "execAll sc cs s1 = Inr s'"
    by (auto split: sum.splits)
  have dc: "downward c" and dw: "\<forall>c\<in>set cs. downward c" using Cons.prems(4) by simp_all
  have b1: "bounded sc s1" "pages s \<le> pages s1"
    using bounded_exec[OF e Cons.prems(3) dc assms(5)] by simp_all
  have "pages s1 \<le> pages s'" using bounded_execAll[OF r b1(1) dw assms(5)] by simp
  then have same: "pages s1 = pages s" "pages s' = pages s1"
    using b1(2) Cons.prems(2) by simp_all
  have "y s1 = y s - advance sc c" using exec_same_page[OF e same(1) Cons.prems(3) assms(5)] .
  moreover have "y s' = y s1 - sum_list (map (advance sc) cs)"
    using Cons.IH[OF r same(2) b1(1) dw] .
  ultimately show ?case by simp
qed

lemma execAll_append:
  "execAll sc (as @ bs) s =
     (case execAll sc as s of Inl err \<Rightarrow> Inl err | Inr s1 \<Rightarrow> execAll sc bs s1)"
  by (induction as arbitrary: s) (auto split: sum.splits)

text \<open>A one-page document that ends with a section header and a paragraph ends above
  the margin.\<close>

lemma closing_section_above_margin:
  assumes "execAll sc (pre @ [DrawSectionHeader h, DrawWrapped t]) s = Inr s'"
    and "pages s' = pages s" and "bounded sc s"
    and "\<forall>c\<in>set pre. downward c" and "2 * margin \<le> height sc"
  shows "margin \<le> y s'"
proof -
  from assms(1) obtain s1 s2 where
    p: "execAll sc pre s = Inr s1" and
    e: "drawSectionHeader sc h s1 = Inr s2" and
    r: "drawLines sc margin bodySize (font sc)
          (wrapText (useUnicode sc) t (maxTextWidth sc) (font sc) bodySize) s2 = Inr s'"
    by (auto simp: execAll_append drawWrapped_def split: sum.splits)
  have b1: "bounded sc s1" "pages s \<le> pages s1"
    using bounded_execAll[OF p assms(3,4,5)] by simp_all
  have b2: "bounded sc s2" "pages s1 \<le> pages s2"
    using bounded_drawSectionHeader[OF e b1(1) assms(5)] by simp_all
  have "pages s2 \<le> pages s'" using bounded_drawLines[OF r b2(1) assms(5)] by simp
  then have same: "pages s2 = pages s1" "pages s' = pages s2"
    using b1(2) b2(2) assms(2) by simp_all
  have h: "margin \<le> y s2" using drawSectionHeader_same_page[OF e same(1)] by simp
  from drawLines_same_page[OF r same(2) b2(1) assms(5)] h show ?thesis
    by (cases "wrapText (useUnicode sc) t (maxTextWidth sc) (font sc) bodySize") simp_all
qed

lemma closing_after_four:
  "\<exists>pre h t. a @ b @ c @ d @ [m, DrawSectionHeader h0, DrawWrapped t0]
      = pre @ [DrawSectionHeader h, DrawWrapped t]"
proof (intro exI)
  show "a @ b @ c @ d @ [m, DrawSectionHeader h0, DrawWrapped t0]
      = (a @ b @ c @ d @ [m]) @ [DrawSectionHeader h0, DrawWrapped t0]"
    by simp
qed

lemma closing_after_three:
  "\<exists>pre h t. a @ b @ c @ [DrawSectionHeader h0, DrawWrapped t0]
      = pre @ [DrawSectionHeader h, DrawWrapped t]"
proof (intro exI)
  show "a @ b @ c @ [DrawSectionHeader h0, DrawWrapped t0]
      = (a @ b @ c) @ [DrawSectionHeader h0, DrawWrapped t0]"
    by simp
qed

lemma instruction_closing:
  "\<exists>pre h t. instructionCommands unicode orig path = pre @ [DrawSectionHeader h, DrawWrapped t]"
  unfolding instructionCommands_def by (rule closing_after_four)

lemma echo_closing:
  "\<exists>pre h t. echoCommands unicode ps = pre @ [DrawSectionHeader h, DrawWrapped t]"
  unfolding echoCommands_def by (rule closing_after_three)

lemma commands_closing:
  "\<exists>pre h t. commands unicode req = pre @ [DrawSectionHeader h, DrawWrapped t]"
  by (simp add: commands_def instruction_closing echo_closing)

lemma execAll_long_content:
  assumes "execAll sc cs s = Inr s'" and "bounded sc s" and "\<forall>c\<in>set cs. downward c"
    and "2 * margin \<le> height sc"
    and "cs = pre @ [DrawSectionHeader h, DrawWrapped t]"
    and "height sc - 2 * margin < sum_list (map (advance sc) cs)"
  shows "pages s < pages s'"
proof (rule ccontr)
  assume "\<not> pages s < pages s'"
  then have same: "pages s' = pages s"
    using bounded_execAll[OF assms(1,2,3,4)] by simp
  have "y s' = y s - sum_list (map (advance sc) cs)"
    using execAll_same_page[OF assms(1) same assms(2,3,4)] .
  moreover have "margin \<le> y s'"
    using closing_section_above_margin[of sc pre h t s s'] assms(1,2,3,4,5) same by simp
  moreover have "y s \<le> height sc - margin" using assms(2) by (simp add: bounded_def)
  ultimately show False using assms(6) by simp
qed

lemma downward_commands: "\<forall>c\<in>set (commands unicode req). downward c"
  by (auto simp: commands_def instructionCommands_def echoCommands_def extraLines_def
      lineHeight_def split: option.splits)

lemma bounded_initial: "bounded sc (initialLayout sc)"
  by (simp add: bounded_def initialLayout_def)

section \<open>Page order and page breaks\<close>

lemma pageOrder_snoc:
  "pageOrder topY (ds @ [b]) \<longleftrightarrow> pageOrder topY ds \<and> (ds \<noteq> [] \<longrightarrow> follows topY (last ds) b)"
  by (induction topY ds rule: pageOrder.induct) auto

lemma ensureSpace_cases:
  assumes "ensureSpace sc needed s = Inr s1"
  shows "(s1 = s \<and> margin \<le> y s - needed)
       \<or> (y s - needed < margin \<and> pages s1 = pages s + 1 \<and> y s1 = height sc - margin
           \<and> drawn s1 = drawn s)"
  using assms
  by (auto simp: ensureSpace_def newPage_def setY_def split: if_splits option.splits)

lemma stacked_draw:
  assumes "ensureSpace sc needed s = Inr s1" and "stacked sc s" and "lineHeight \<le> dec"
  shows "stacked sc (setY (y s1 - dec) (drawAt t x fsize fnt s1))"
  using ensureSpace_cases[OF assms(1)] assms(2,3)
  by (auto simp: stacked_def setY_def drawAt_def pageOrder_snoc follows_def)

lemma first_draw:
  assumes "ensureSpace sc needed (initialLayout sc) = Inr s1" and "lineHeight \<le> dec"
  shows "stacked sc (setY (y s1 - dec) (drawAt t x fsize fnt s1))
       \<and> atY (hd (drawn (setY (y s1 - dec) (drawAt t x fsize fnt s1)))) = height sc - margin"
  using ensureSpace_cases[OF assms(1)] assms(2)
  by (auto simp: stacked_def setY_def drawAt_def initialLayout_def)

lemma stacked_drawLines:
  "drawLines sc x fsize fnt ls s = Inr s' \<Longrightarrow> stacked sc s \<Longrightarrow> stacked sc s'"
proof (induction ls arbitrary: s)
  case Nil
  then show ?case by simp
next
  case (Cons l ls)
  from Cons.prems(1) obtain s1 t where
    e: "ensureSpace sc lineHeight s = Inr s1" and
    r: "drawLines sc x fsize fnt ls (setY (y s1 - lineHeight) (drawAt t x fsize fnt s1)) = Inr s'"
    by (auto split: sum.splits)
  from Cons.IH[OF r stacked_draw[OF e Cons.prems(2)]] show ?case by simp
qed

lemma stacked_exec:
  assumes "exec sc c s = Inr s'" and "stacked sc s" and "downward c"
  shows "stacked sc s'"
proof (cases c)
  case (DrawTitle t)
  with assms(1) obtain s1 u where
    e: "ensureSpace sc (lineHeight * 2) s = Inr s1" and
    r: "s' = setY (y s1 - lineHeight * 2) (drawAt u margin titleSize (fontBold sc) s1)"
    by (auto simp: drawTitle_def split: sum.splits)
  show ?thesis unfolding r by (rule stacked_draw[OF e assms(2)]) (simp add: lineHeight_def)
next
  case (DrawSectionHeader t)
  with assms(1) obtain s1 u where
    e: "ensureSpace sc (lineHeight * 2) s = Inr s1" and
    r: "s' = setY (y s1 - lineHeight * 1.5) (drawAt u margin sectionHeaderSize (fontBold sc) s1)"
    by (auto simp: drawSectionHeader_def split: sum.splits)
  show ?thesis unfolding r by (rule stacked_draw[OF e assms(2)]) (simp add: lineHeight_def)
next
  case (DrawWrapped t)
  then show ?thesis using assms stacked_drawLines by (simp add: drawWrapped_def)
next
  case (MoveDown d)
  then show ?thesis using assms by (auto simp: stacked_def setY_def)
qed

lemma stacked_execAll:
  "execAll sc cs s = Inr s' \<Longrightarrow> stacked sc s \<Longrightarrow> \<forall>c\<in>set cs. downward c \<Longrightarrow> stacked sc s'"
proof (induction cs arbitrary: s)
  case Nil
  then show ?case by simp
next
  case (Cons c cs)
  from Cons.prems(1) obtain s1 where
    e: "exec sc c s = Inr s1" and r: "execAll sc cs s1 = Inr s'"
    by (auto split: sum.splits)
  have "stacked sc s1" using stacked_exec[OF e Cons.prems(2)] Cons.prems(3) by simp
  from Cons.IH[OF r this] Cons.prems(3) show ?case by simp
qed

lemma commands_head: "\<exists>t cs. commands unicode req = DrawTitle t # cs"
  by (simp add: commands_def instructionCommands_def echoCommands_def)

lemma layout_page_order:
  assumes "execAll sc (DrawTitle t # cs) (initialLayout sc) = Inr s"
    and "\<forall>c\<in>set cs. downward c"
  shows "stacked sc s \<and> atY (hd (drawn s)) = height sc - margin"
proof -
  from assms(1) obtain s1 where
    e: "drawTitle sc t (initialLayout sc) = Inr s1" and r: "execAll sc cs s1 = Inr s"
    by (auto split: sum.splits)
  from e obtain s0 u where
    e0: "ensureSpace sc (lineHeight * 2) (initialLayout sc) = Inr s0" and
    s1: "s1 = setY (y s0 - lineHeight * 2) (drawAt u margin titleSize (fontBold sc) s0)"
    by (auto simp: drawTitle_def split: sum.splits)
  have f: "stacked sc s1 \<and> atY (hd (drawn s1)) = height sc - margin"
    unfolding s1 by (rule first_draw[OF e0]) (simp add: lineHeight_def)
  then have "stacked sc s" using stacked_execAll[OF r _ assms(2)] by simp
  moreover obtain more where "drawn s = drawn s1 @ more" using drawn_execAll[OF r] by blast
  moreover have "drawn s1 \<noteq> []" using f by (simp add: stacked_def)
  ultimately show ?thesis using f by simp
qed

text \<open>When a call adds a page.\<close>

lemma drawLines_fits:
  "drawLines sc x fsize fnt ls s = Inr s' \<Longrightarrow> margin \<le> y s - real (length ls) * lineHeight
     \<Longrightarrow> pages s' = pages s"
proof (induction ls arbitrary: s)
  case Nil
  then show ?case by simp
next
  case (Cons l ls)
  have room: "margin \<le> y s - lineHeight"
  proof -
    have "0 \<le> real (length ls) * lineHeight" by (simp add: lineHeight_def)
    then show ?thesis using Cons.prems(2) by (simp add: algebra_simps)
  qed
  then have e: "ensureSpace sc lineHeight s = Inr s" by (simp add: ensureSpace_def)
  with Cons.prems(1) obtain t where
    r: "drawLines sc x fsize fnt ls (setY (y s - lineHeight) (drawAt t x fsize fnt s)) = Inr s'"
    by (auto split: sum.splits)
  have "margin \<le> y (setY (y s - lineHeight) (drawAt t x fsize fnt s))
                   - real (length ls) * lineHeight"
    using Cons.prems(2) by (simp add: algebra_simps)
  from Cons.IH[OF r this] show ?case by simp
qed

lemma exec_pages_iff:
  assumes "exec sc c s = Inr s'" and "bounded sc s" and "2 * margin \<le> height sc"
  shows "pages s < pages s' \<longleftrightarrow> crossesAt sc (y s) c"
proof (cases c)
  case (DrawTitle t)
  with assms(1) obtain s1 u where
    e: "ensureSpace sc (lineHeight * 2) s = Inr s1" and
    r: "s' = setY (y s1 - lineHeight * 2) (drawAt u margin titleSize (fontBold sc) s1)"
    by (auto simp: drawTitle_def split: sum.splits)
  show ?thesis using ensureSpace_cases[OF e] r DrawTitle by auto
next
  case (DrawSectionHeader t)
  with assms(1) obtain s1 u where
    e: "ensureSpace sc (lineHeight * 2) s = Inr s1" and
    r: "s' = setY (y s1 - lineHeight * 1.5) (drawAt u margin sectionHeaderSize (fontBold sc) s1)"
    by (auto simp: drawSectionHeader_def split: sum.splits)
  show ?thesis using ensureSpace_cases[OF e] r DrawSectionHeader by auto
next
  case (DrawWrapped t)
  let ?ls = "wrapText (useUnicode sc) t (maxTextWidth sc) (font sc) bodySize"
  have r: "drawLines sc margin bodySize (font sc) ?ls s = Inr s'"
    using assms(1) DrawWrapped by (simp add: drawWrapped_def)
  have mono: "pages s \<le> pages s'" using bounded_drawLines[OF r assms(2,3)] by simp
  show ?thesis
  proof
    assume up: "pages s < pages s'"
    have "?ls \<noteq> []" using up r by auto
    moreover have "y s - real (length ?ls) * lineHeight < margin"
    proof (rule ccontr)
      assume "\<not> y s - real (length ?ls) * lineHeight < margin"
      then have "pages s' = pages s" using drawLines_fits[OF r] by simp
      then show False using up by simp
    qed
    ultimately show "crossesAt sc (y s) c" using DrawWrapped by simp
  next
    assume "crossesAt sc (y s) c"
    then have ne: "?ls \<noteq> []" and low: "y s - real (length ?ls) * lineHeight < margin"
      using DrawWrapped by simp_all
    show "pages s < pages s'"
    proof (rule ccontr)
      assume "\<not> pages s < pages s'"
      then have "pages s' = pages s" using mono by simp
      from drawLines_same_page[OF r this assms(2,3)] ne low show False by simp
    qed
  qed
next
  case (MoveDown d)
  then show ?thesis using assms(1) by (auto simp: setY_def)
qed

lemma execAll_pages_iff:
  assumes "execAll sc cs s = Inr s'" and "bounded sc s" and "\<forall>c\<in>set cs. downward c"
    and "2 * margin \<le> height sc"
  shows "pages s < pages s' \<longleftrightarrow>
     (\<exists>pre c post. cs = pre @ c # post
        \<and> crossesAt sc (y s - sum_list (map (advance sc) pre)) c)"
  using assms(1,2,3)
proof (induction cs arbitrary: s)
  case Nil
  then show ?case by simp
next
  case (Cons c cs)
  from Cons.prems(1) obtain s1 where
    e: "exec sc c s = Inr s1" and r: "execAll sc cs s1 = Inr s'"
    by (auto split: sum.splits)
  have dc: "downward c" and dw: "\<forall>c\<in>set cs. downward c" using Cons.prems(3) by simp_all
  have b1: "bounded sc s1" "pages s \<le> pages s1"
    using bounded_exec[OF e Cons.prems(2) dc assms(4)] by simp_all
  have mono: "pages s1 \<le> pages s'" using bounded_execAll[OF r b1(1) dw assms(4)] by simp
  have here: "pages s < pages s1 \<longleftrightarrow> crossesAt sc (y s) c"
    using exec_pages_iff[OF e Cons.prems(2) assms(4)] .
  have later: "pages s1 < pages s' \<longleftrightarrow>
     (\<exists>pre c' post. cs = pre @ c' # post
        \<and> crossesAt sc (y s1 - sum_list (map (advance sc) pre)) c')"
    using Cons.IH[OF r b1(1) dw] .
  show ?case
  proof (cases "crossesAt sc (y s) c")
    case True
    then have "pages s < pages s'" using here mono by simp
    moreover have "c # cs = [] @ c # cs \<and> crossesAt sc (y s - sum_list (map (advance sc) [])) c"
      using True by simp
    ultimately show ?thesis by blast
  next
    case False
    then have same: "pages s1 = pages s" using here b1(2) by simp
    have y1: "y s1 = y s - advance sc c"
      using exec_same_page[OF e same Cons.prems(2) assms(4)] .
    show ?thesis
    proof
      assume "pages s < pages s'"
      then have "pages s1 < pages s'" using same by simp
      then obtain pre c' post where
        sp: "cs = pre @ c' # post" and
        cr: "crossesAt sc (y s1 - sum_list (map (advance sc) pre)) c'"
        using later by blast
      have "c # cs = (c # pre) @ c' # post" using sp by simp
      moreover have eq: "y s - sum_list (map (advance sc) (c # pre))
                       = y s1 - sum_list (map (advance sc) pre)"
        using y1 by simp
      have "crossesAt sc (y s - sum_list (map (advance sc) (c # pre))) c'"
        unfolding eq by (rule cr)
      ultimately show "\<exists>pre c' post. c # cs = pre @ c' # post
        \<and> crossesAt sc (y s - sum_list (map (advance sc) pre)) c'"
        by blast
    next
      assume "\<exists>pre c' post. c # cs = pre @ c' # post
        \<and> crossesAt sc (y s - sum_list (map (advance sc) pre)) c'"
      then obtain pre c' post where
        sp: "c # cs = pre @ c' # post" and
        cr: "crossesAt sc (y s - sum_list (map (advance sc) pre)) c'"
        by blast
      show "pages s < pages s'"
      proof (cases pre)
        case Nil
        then show ?thesis using sp cr False by simp
      next
        case (Cons a pre')
        then have "cs = pre' @ c' # post" and "a = c" using sp by simp_all
        moreover have eq: "y s1 - sum_list (map (advance sc) pre')
                         = y s - sum_list (map (advance sc) pre)"
          using y1 Cons \<open>a = c\<close> by simp
        have "crossesAt sc (y s1 - sum_list (map (advance sc) pre')) c'"
          unfolding eq by (rule cr)
        ultimately have "pages s1 < pages s'" using later by blast
        then show ?thesis using same by simp
      qed
    qed
  qed
qed

text \<open>
  Claim C2, as amended. For every request whose layout completes, on pages at least two
  margins high. Every value that the cursor \<open>y\<close> takes is at most the page height minus the
  margin, and every text is drawn at a position \<open>y\<close> with margin \<open>\<le> y \<le>\<close> page height minus
  margin. The first text is drawn at the page height minus the margin; each later text is
  drawn on the page of the text before it, at least a line height lower, or on the next
  page at the page height minus the margin; the last text is on the last page. So a page is
  added only just before a draw, and the cursor is then at the page height minus the
  margin. The document has more than one page exactly when, with the advances counted from
  the top, the room that some call needs crosses the bottom margin; so content whose
  advances add up to more than the usable height of a page gives more than one page. The
  lower bound is not claimed for the cursor between draws.
\<close>

theorem cursor_bounds_and_pagination:
  assumes "layoutOf lib req = Inr s" and "2 * margin \<le> snd (getSize lib)"
  shows "(\<forall>v\<in>set (cursorTrace s). v \<le> snd (getSize lib) - margin)
       \<and> (\<forall>d\<in>set (drawn s). margin \<le> atY d \<and> atY d \<le> snd (getSize lib) - margin)
       \<and> (\<forall>fonts. embedFonts lib = Inr fonts
             \<and> snd (getSize lib) - 2 * margin
                 < sum_list (map (advance (scopeOf lib fonts)) (commands False req))
           \<longrightarrow> 1 < pages s)
       \<and> drawn s \<noteq> []
       \<and> atY (hd (drawn s)) = snd (getSize lib) - margin
       \<and> pageOrder (snd (getSize lib) - margin) (drawn s)
       \<and> pages s = onPage (last (drawn s)) + 1
       \<and> (\<forall>fonts. embedFonts lib = Inr fonts \<longrightarrow>
            (1 < pages s \<longleftrightarrow>
               (\<exists>pre c post. commands False req = pre @ c # post
                  \<and> crossesAt (scopeOf lib fonts)
                       (snd (getSize lib) - margin
                          - sum_list (map (advance (scopeOf lib fonts)) pre)) c)))"
proof -
  from assms(1) obtain fonts where
    f: "embedFonts lib = Inr fonts" and
    r: "execAll (scopeOf lib fonts) (commands False req) (initialLayout (scopeOf lib fonts))
          = Inr s"
    by (auto simp: layoutOf_def split: option.splits sum.splits)
  let ?sc = "scopeOf lib fonts"
  have h: "2 * margin \<le> height ?sc" using assms(2) by (simp add: scopeOf_def)
  have b: "bounded ?sc s"
    using bounded_execAll[OF r bounded_initial downward_commands h] by simp
  have hs: "height ?sc = snd (getSize lib)" by (simp add: scopeOf_def)
  obtain pre h0 t where c: "commands False req = pre @ [DrawSectionHeader h0, DrawWrapped t]"
    using commands_closing by blast
  have p: "1 < pages s"
    if "snd (getSize lib) - 2 * margin < sum_list (map (advance ?sc) (commands False req))"
  proof -
    have "height ?sc - 2 * margin < sum_list (map (advance ?sc) (commands False req))"
      using that hs by simp
    from execAll_long_content[OF r bounded_initial downward_commands h c this]
    show ?thesis by (simp add: initialLayout_def)
  qed
  obtain t0 cs0 where c0: "commands False req = DrawTitle t0 # cs0"
    using commands_head by blast
  have "\<forall>c\<in>set cs0. downward c" using downward_commands[of False req] c0 by simp
  then have st: "stacked ?sc s \<and> atY (hd (drawn s)) = height ?sc - margin"
    using layout_page_order[of ?sc t0 cs0 s] r c0 by simp
  have q: "1 < pages s \<longleftrightarrow>
               (\<exists>pre c post. commands False req = pre @ c # post
                  \<and> crossesAt ?sc
                       (snd (getSize lib) - margin - sum_list (map (advance ?sc) pre)) c)"
    using execAll_pages_iff[OF r bounded_initial downward_commands h]
    by (simp add: initialLayout_def hs)
  have old: "(\<forall>v\<in>set (cursorTrace s). v \<le> snd (getSize lib) - margin)
       \<and> (\<forall>d\<in>set (drawn s). margin \<le> atY d \<and> atY d \<le> snd (getSize lib) - margin)"
    using b unfolding bounded_def hs by simp
  have new: "drawn s \<noteq> [] \<and> atY (hd (drawn s)) = snd (getSize lib) - margin
       \<and> pageOrder (snd (getSize lib) - margin) (drawn s)
       \<and> pages s = onPage (last (drawn s)) + 1"
    using st unfolding stacked_def hs by auto
  show ?thesis using old new p q f by auto
qed

lemma manyParams_layout:
  "map_sum asString (\<lambda>s. (pages s, cursorTrace s)) (layoutOf sampleLib manyParams) =
     Inr (2, [742, 706, 679, 661, 643, 625, 607, 589, 571, 553, 535, 517, 499, 481,
              463, 445, 427, 409, 391, 373, 355, 337, 319, 301, 283, 265, 247, 229,
              211, 193, 175, 157, 139, 121, 103, 85, 67, 49, 742, 715, 697])"
  by code_simp

lemma manyParams_advance:
  "sum_list (map (advance (scopeOf sampleLib (halfEm, halfEm))) (commands False manyParams))
     = 738"
  by code_simp

theorem cursor_bounds_and_pagination_witness:
  "map_sum asString pages (layoutOf sampleLib manyParams) = Inr 2
   \<and> 2 * margin \<le> snd (getSize sampleLib)
   \<and> embedFonts sampleLib = Inr (halfEm, halfEm)
   \<and> snd (getSize sampleLib) - 2 * margin
       < sum_list (map (advance (scopeOf sampleLib (halfEm, halfEm)))
           (commands False manyParams))"
proof -
  obtain s where s: "layoutOf sampleLib manyParams = Inr s" and p: "pages s = 2"
    using manyParams_layout by (cases "layoutOf sampleLib manyParams") auto
  have h: "2 * margin \<le> snd (getSize sampleLib)" by (simp add: sampleLib_def margin_def)
  have e: "embedFonts sampleLib = Inr (halfEm, halfEm)"
    by (simp add: embedFonts_def sampleLib_def)
  have a: "snd (getSize sampleLib) - 2 * margin
       < sum_list (map (advance (scopeOf sampleLib (halfEm, halfEm)))
           (commands False manyParams))"
    unfolding manyParams_advance by (simp add: sampleLib_def margin_def)
  from cursor_bounds_and_pagination[OF s h] e a have "1 < pages s" by blast
  then show ?thesis using s p h e a by simp
qed

lemma manyParamsA4_layout:
  "map_sum asString cursorTrace (layoutOf a4Lib manyParamsA4) =
     Inr [791.89, 755.89, 728.89, 710.89, 692.89, 674.89, 656.89, 638.89,
          620.89, 602.89, 584.89, 566.89, 548.89, 530.89, 512.89, 494.89,
          476.89, 458.89, 440.89, 422.89, 404.89, 386.89, 368.89, 350.89,
          332.89, 314.89, 296.89, 278.89, 260.89, 242.89, 224.89, 206.89,
          188.89, 170.89, 152.89, 134.89, 116.89, 98.89, 80.89, 62.89, 44.89,
          791.89, 764.89, 746.89]"
  by code_simp

text \<open>
  The claim as stated fails between draws. On Letter pages, the size that the comment in
  the handler names: after the 34 lines of \<open>manyParams\<close> the cursor is at 67, and the
  spacing after the section moves it to 49, below the margin of 50, before the next
  header starts page 2. On A4 pages, the default of the library: after the 37 lines of
  \<open>manyParamsA4\<close> the cursor is at 62.89, and the spacing moves it to 44.89.
\<close>

theorem cursor_below_margin_counterexample:
  "map_sum asString cursorTrace (layoutOf sampleLib manyParams) =
     Inr [742, 706, 679, 661, 643, 625, 607, 589, 571, 553, 535, 517, 499, 481,
          463, 445, 427, 409, 391, 373, 355, 337, 319, 301, 283, 265, 247, 229,
          211, 193, 175, 157, 139, 121, 103, 85, 67, 49, 742, 715, 697]
   \<and> (49 :: real) < margin
   \<and> map_sum asString cursorTrace (layoutOf a4Lib manyParamsA4) =
     Inr [791.89, 755.89, 728.89, 710.89, 692.89, 674.89, 656.89, 638.89,
          620.89, 602.89, 584.89, 566.89, 548.89, 530.89, 512.89, 494.89,
          476.89, 458.89, 440.89, 422.89, 404.89, 386.89, 368.89, 350.89,
          332.89, 314.89, 296.89, 278.89, 260.89, 242.89, 224.89, 206.89,
          188.89, 170.89, 152.89, 134.89, 116.89, 98.89, 80.89, 62.89, 44.89,
          791.89, 764.89, 746.89]
   \<and> (44.89 :: real) < margin"
proof -
  obtain s where s: "layoutOf sampleLib manyParams = Inr s"
    and t: "cursorTrace s = [742, 706, 679, 661, 643, 625, 607, 589, 571, 553, 535, 517, 499, 481,
          463, 445, 427, 409, 391, 373, 355, 337, 319, 301, 283, 265, 247, 229,
          211, 193, 175, 157, 139, 121, 103, 85, 67, 49, 742, 715, 697]"
    using manyParams_layout by (cases "layoutOf sampleLib manyParams") auto
  then show ?thesis using manyParamsA4_layout by (simp add: margin_def)
qed

section \<open>What is drawn for the title and the text\<close>

lemma printable_transliterate: "list_all printable (transliterate c)"
proof (cases "map_of arabicToLatin c")
  case None
  then show ?thesis by (simp add: transliterate_def js_def printable_def)
next
  case (Some s)
  then have "(c, s) \<in> set arabicToLatin" by (rule map_of_SomeD)
  then have "list_all printable s"
    by (auto simp: arabicToLatin_def js_def printable_def)
  then show ?thesis using Some by (simp add: transliterate_def js_def printable_def)
qed

lemma printable_replace:
  "(\<And>c. list_all printable (f c)) \<Longrightarrow> list_all printable (replaceNonPrintable f t)"
  by (induction t) (auto simp: replaceNonPrintable_def)

lemma printable_processText: "list_all printable (processText False t)"
  using printable_replace[of transliterate t] printable_transliterate
  by (simp add: processText_def truthy_def)


lemma replace_printable: "list_all printable t \<Longrightarrow> replaceNonPrintable f t = t"
  by (induction t) (auto simp: replaceNonPrintable_def)

lemma tryDrawText_printable:
  "list_all printable t \<Longrightarrow> tryDrawText fnt t = Inr shown \<Longrightarrow> shown = t"
  by (auto simp: tryDrawText_def fallbackText_def replace_printable split: option.splits)

text \<open>The first text of a document is its title, after \<open>processText\<close>.\<close>

lemma title_is_first_drawing:
  assumes "layoutOf lib req = Inr s" and "commands False req = DrawTitle t # cs"
  shows "drawn s \<noteq> [] \<and> content (hd (drawn s)) = processText False t"
proof -
  from assms(1) obtain fonts where
    r: "execAll (scopeOf lib fonts) (commands False req) (initialLayout (scopeOf lib fonts))
          = Inr s"
    by (auto simp: layoutOf_def split: option.splits sum.splits)
  let ?sc = "scopeOf lib fonts"
  from r assms(2) obtain s1 where
    e: "drawTitle ?sc t (initialLayout ?sc) = Inr s1" and r2: "execAll ?sc cs s1 = Inr s"
    by (auto split: sum.splits)
  from e obtain s0 shown where
    e0: "ensureSpace ?sc (lineHeight * 2) (initialLayout ?sc) = Inr s0" and
    d: "tryDrawText (fontBold ?sc) (processText (useUnicode ?sc) t) = Inr shown" and
    s1: "s1 = setY (y s0 - lineHeight * 2) (drawAt shown margin titleSize (fontBold ?sc) s0)"
    by (auto simp: drawTitle_def split: sum.splits)
  have "shown = processText False t"
    using tryDrawText_printable[OF printable_processText] d by (simp add: scopeOf_def)
  moreover have "drawn s0 = []" using drawn_ensureSpace[OF e0] by (simp add: initialLayout_def)
  ultimately have "drawn s1 = [\<lparr>onPage = pages s0 - 1, content = processText False t,
      atX = margin, atY = y s0, atSize = titleSize, withFont = fontBold ?sc\<rparr>]"
    using s1 by (simp add: setY_def drawAt_def)
  then show ?thesis using drawn_execAll[OF r2] by auto
qed

lemma commands_echo: "params req \<noteq> [] \<Longrightarrow> commands u req = echoCommands u (params req)"
  by (simp add: commands_def)

lemma echo_head: "\<exists>cs. echoCommands u ps = DrawTitle (titleParam ps) # cs"
  by (simp add: echoCommands_def)

lemma searchGet_nonempty: "searchGet ps k = Some v \<Longrightarrow> ps \<noteq> []"
  by (auto simp: searchGet_def)

section \<open>What the helpers put on the page\<close>

lemma tryDrawText_rendered: "tryDrawText fnt t = Inr shown \<Longrightarrow> shown = rendered fnt t"
  by (auto simp: tryDrawText_def rendered_def split: option.splits)

lemma rendered_printable: "list_all printable t \<Longrightarrow> rendered fnt t = t"
  by (simp add: rendered_def fallbackText_def replace_printable)

lemma contents_drawLines:
  "drawLines sc x fsize fnt ls s = Inr s' \<Longrightarrow>
     map content (drawn s') = map content (drawn s) @ map (rendered fnt) ls"
proof (induction ls arbitrary: s)
  case Nil
  then show ?case by simp
next
  case (Cons l ls)
  from Cons.prems obtain s1 t where
    e: "ensureSpace sc lineHeight s = Inr s1" and
    d: "tryDrawText fnt l = Inr t" and
    r: "drawLines sc x fsize fnt ls (setY (y s1 - lineHeight) (drawAt t x fsize fnt s1)) = Inr s'"
    by (auto split: sum.splits)
  from Cons.IH[OF r] drawn_ensureSpace[OF e] tryDrawText_rendered[OF d] show ?case
    by (simp add: setY_def drawAt_def)
qed

lemma contents_drawTitle:
  assumes "drawTitle sc text s = Inr s'"
  shows "map content (drawn s')
           = map content (drawn s) @ [rendered (fontBold sc) (processText (useUnicode sc) text)]"
proof -
  from assms obtain s1 t where
    e: "ensureSpace sc (lineHeight * 2) s = Inr s1" and
    d: "tryDrawText (fontBold sc) (processText (useUnicode sc) text) = Inr t" and
    r: "s' = setY (y s1 - lineHeight * 2) (drawAt t margin titleSize (fontBold sc) s1)"
    by (auto simp: drawTitle_def split: sum.splits)
  show ?thesis
    using drawn_ensureSpace[OF e] tryDrawText_rendered[OF d] r by (simp add: setY_def drawAt_def)
qed

lemma contents_drawSectionHeader:
  assumes "drawSectionHeader sc text s = Inr s'"
  shows "map content (drawn s')
           = map content (drawn s) @ [rendered (fontBold sc) (processText (useUnicode sc) text)]"
proof -
  from assms obtain s1 t where
    e: "ensureSpace sc (lineHeight * 2) s = Inr s1" and
    d: "tryDrawText (fontBold sc) (processText (useUnicode sc) text) = Inr t" and
    r: "s' = setY (y s1 - lineHeight * 1.5)
               (drawAt t margin sectionHeaderSize (fontBold sc) s1)"
    by (auto simp: drawSectionHeader_def split: sum.splits)
  show ?thesis
    using drawn_ensureSpace[OF e] tryDrawText_rendered[OF d] r by (simp add: setY_def drawAt_def)
qed

lemma contents_exec:
  assumes "exec sc c s = Inr s'"
  shows "map content (drawn s') = map content (drawn s) @ texts sc c"
proof (cases c)
  case (DrawTitle t)
  then show ?thesis using assms contents_drawTitle by simp
next
  case (DrawSectionHeader t)
  then show ?thesis using assms contents_drawSectionHeader by simp
next
  case (DrawWrapped t)
  then show ?thesis using assms contents_drawLines by (simp add: drawWrapped_def bodyLines_def)
next
  case (MoveDown d)
  then show ?thesis using assms by (auto simp: setY_def)
qed

lemma contents_execAll:
  "execAll sc cs s = Inr s' \<Longrightarrow>
     map content (drawn s') = map content (drawn s) @ concat (map (texts sc) cs)"
proof (induction cs arbitrary: s)
  case Nil
  then show ?case by simp
next
  case (Cons c cs)
  from Cons.prems obtain s1 where
    e: "exec sc c s = Inr s1" and r: "execAll sc cs s1 = Inr s'"
    by (auto split: sum.splits)
  from contents_exec[OF e] Cons.IH[OF r] show ?case by simp
qed

lemma contents_layoutOf:
  assumes "layoutOf lib req = Inr s"
  shows "\<exists>fonts. embedFonts lib = Inr fonts
           \<and> map content (drawn s)
               = concat (map (texts (scopeOf lib fonts)) (commands False req))"
proof -
  from assms obtain fonts where
    f: "embedFonts lib = Inr fonts" and
    r: "execAll (scopeOf lib fonts) (commands False req) (initialLayout (scopeOf lib fonts))
          = Inr s"
    by (auto simp: layoutOf_def split: option.splits sum.splits)
  from contents_execAll[OF r] f show ?thesis by (simp add: initialLayout_def)
qed

section \<open>The characters of the wrapped lines\<close>

lemma concat_codePoints: "concat (codePoints w) = w"
  by (induction w rule: codePoints.induct) auto

lemma concat_splitChars:
  "splitChars tw mw chs (lines, chunk) = (lines', chunk') \<Longrightarrow>
     concat lines' @ chunk' = concat lines @ chunk @ concat chs"
proof (induction chs arbitrary: lines chunk)
  case Nil
  then show ?case by simp
next
  case (Cons ch chs)
  show ?case
  proof (cases "tw (chunk @ ch) \<le> mw")
    case True
    with Cons.prems have "splitChars tw mw chs (lines, chunk @ ch) = (lines', chunk')" by simp
    from Cons.IH[OF this] show ?thesis by simp
  next
    case False
    with Cons.prems have
      "splitChars tw mw chs (if truthy chunk then lines @ [chunk] else lines, ch)
         = (lines', chunk')"
      by simp
    from Cons.IH[OF this] show ?thesis by (auto simp: truthy_def split: if_splits)
  qed
qed

lemma filter_dropWhile: "filter (\<lambda>c. \<not> P c) (dropWhile P xs) = filter (\<lambda>c. \<not> P c) xs"
  by (induction xs) auto

lemma concat_splitWs: "concat (splitWs p) = filter (\<lambda>c. \<not> isSpace c) p"
proof (induction p rule: splitWs.induct)
  case 1
  then show ?case by simp
next
  case (2 c cs)
  show ?case
  proof (cases "isSpace c")
    case True
    then show ?thesis using "2.IH"(1) by (simp add: filter_dropWhile)
  next
    case False
    obtain w ws where sp: "splitWs cs = w # ws"
      using splitWs_not_Nil by (cases "splitWs cs") auto
    then show ?thesis using False "2.IH"(2)[OF False] by simp
  qed
qed

lemma concat_wrapWords:
  "wrapWords tw mw ws (lines, current) = (lines', current') \<Longrightarrow>
     filter (\<lambda>c. \<not> isSpace c) (concat lines' @ current')
       = filter (\<lambda>c. \<not> isSpace c) (concat lines @ current @ concat ws)"
proof (induction ws arbitrary: lines current)
  case Nil
  then show ?case by simp
next
  case (Cons w ws)
  let ?attempt = "if truthy current then current @ js '' '' @ w else w"
  have sp: "isSpace 0x20" by (simp add: isSpace_def)
  show ?case
  proof (cases "tw ?attempt \<le> mw")
    case True
    with Cons.prems have "wrapWords tw mw ws (lines, ?attempt) = (lines', current')"
      by (simp add: Let_def)
    from Cons.IH[OF this] show ?thesis using sp by (auto simp: truthy_def js_def)
  next
    case False
    let ?ls = "if truthy current then lines @ [current] else lines"
    obtain l1 c1 where sc: "splitChars tw mw (codePoints w) (?ls, []) = (l1, c1)"
      by (cases "splitChars tw mw (codePoints w) (?ls, [])")
    from False Cons.prems sc have run: "wrapWords tw mw ws (l1, c1) = (lines', current')"
      by (simp add: Let_def)
    have "concat l1 @ c1 = concat ?ls @ w"
      using concat_splitChars[OF sc] by (simp add: concat_codePoints)
    also have "\<dots> = concat lines @ current @ w" by (simp add: truthy_def)
    finally have eq: "concat l1 @ c1 = concat lines @ current @ w" .
    have "filter (\<lambda>c. \<not> isSpace c) (concat l1 @ c1)
        = filter (\<lambda>c. \<not> isSpace c) (concat lines @ current @ w)"
      by (simp only: eq)
    then have "filter (\<lambda>c. \<not> isSpace c) (concat l1 @ c1 @ concat ws)
        = filter (\<lambda>c. \<not> isSpace c) (concat lines @ current @ concat (w # ws))"
      by simp
    then show ?thesis using Cons.IH[OF run] by (simp only:)
  qed
qed

text \<open>Wrapping keeps the characters of the processed text other than white space, in
  order.\<close>

lemma wrapText_keeps_characters:
  "filter (\<lambda>c. \<not> isSpace c) (concat (wrapText unicode text maxWidth fnt fsize))
     = filter (\<lambda>c. \<not> isSpace c) (processText unicode text)"
proof -
  obtain lines current where
    run: "wrapWords (textWidth fnt fsize) maxWidth (splitWs (processText unicode text)) ([], [])
            = (lines, current)"
    by (cases "wrapWords (textWidth fnt fsize) maxWidth (splitWs (processText unicode text))
                 ([], [])")
  have "concat (wrapText unicode text maxWidth fnt fsize) = concat lines @ current"
    using run by (simp add: wrapText_def truthy_def)
  then show ?thesis using concat_wrapWords[OF run] by (simp add: concat_splitWs)
qed

lemma splitChars_all:
  assumes "\<forall>ch\<in>set chs. list_all Q ch" and "\<forall>l\<in>set lines. list_all Q l"
    and "list_all Q chunk"
    and "splitChars tw mw chs (lines, chunk) = (lines', chunk')"
  shows "(\<forall>l\<in>set lines'. list_all Q l) \<and> list_all Q chunk'"
  using assms
proof (induction chs arbitrary: lines chunk)
  case Nil
  then show ?case by simp
next
  case (Cons ch chs)
  have rest: "\<forall>c\<in>set chs. list_all Q c" and ch: "list_all Q ch" using Cons.prems(1) by simp_all
  show ?case
  proof (cases "tw (chunk @ ch) \<le> mw")
    case True
    with Cons.prems have "splitChars tw mw chs (lines, chunk @ ch) = (lines', chunk')" by simp
    moreover have "list_all Q (chunk @ ch)" using Cons.prems(3) ch by simp
    ultimately show ?thesis using Cons.IH[of lines "chunk @ ch"] Cons.prems(2) rest by blast
  next
    case False
    let ?ls = "if truthy chunk then lines @ [chunk] else lines"
    from False Cons.prems have run: "splitChars tw mw chs (?ls, ch) = (lines', chunk')" by simp
    have "\<forall>l\<in>set ?ls. list_all Q l" using Cons.prems(2,3) by auto
    then show ?thesis using Cons.IH[OF rest _ ch run] by blast
  qed
qed

lemma codePoints_all: "list_all Q w \<Longrightarrow> \<forall>ch\<in>set (codePoints w). list_all Q ch"
  by (induction w rule: codePoints.induct) auto

lemma splitWs_all: "list_all Q p \<Longrightarrow> \<forall>w\<in>set (splitWs p). list_all Q w"
proof (induction p rule: splitWs.induct)
  case 1
  then show ?case by simp
next
  case (2 c cs)
  have cs: "list_all Q cs" and c: "Q c" using "2.prems" by simp_all
  show ?case
  proof (cases "isSpace c")
    case True
    have "list_all Q (dropWhile isSpace cs)"
      using cs by (metis list_all_append takeWhile_dropWhile_id)
    then show ?thesis using True "2.IH"(1) by simp
  next
    case False
    obtain w ws where sp: "splitWs cs = w # ws"
      using splitWs_not_Nil by (cases "splitWs cs") auto
    then show ?thesis using False "2.IH"(2)[OF False cs] c by simp
  qed
qed

lemma wrapWords_all:
  assumes "\<forall>w\<in>set ws. list_all Q w" and "Q 0x20"
    and "\<forall>l\<in>set lines. list_all Q l" and "list_all Q current"
    and "wrapWords tw mw ws (lines, current) = (lines', current')"
  shows "(\<forall>l\<in>set lines'. list_all Q l) \<and> list_all Q current'"
  using assms(1,3,4,5)
proof (induction ws arbitrary: lines current)
  case Nil
  then show ?case by simp
next
  case (Cons w ws)
  have rest: "\<forall>v\<in>set ws. list_all Q v" and w: "list_all Q w" using Cons.prems(1) by simp_all
  let ?attempt = "if truthy current then current @ js '' '' @ w else w"
  have "list_all Q (js '' '')" using assms(2) by (simp add: js_def)
  then have att: "list_all Q ?attempt" using Cons.prems(3) w by simp
  show ?case
  proof (cases "tw ?attempt \<le> mw")
    case True
    with Cons.prems(4) have run: "wrapWords tw mw ws (lines, ?attempt) = (lines', current')"
      by (simp add: Let_def)
    from Cons.IH[OF rest Cons.prems(2) att run] show ?thesis .
  next
    case False
    let ?ls = "if truthy current then lines @ [current] else lines"
    obtain l1 c1 where sc: "splitChars tw mw (codePoints w) (?ls, []) = (l1, c1)"
      by (cases "splitChars tw mw (codePoints w) (?ls, [])")
    from False Cons.prems(4) sc have run: "wrapWords tw mw ws (l1, c1) = (lines', current')"
      by (simp add: Let_def)
    have a: "\<forall>l\<in>set ?ls. list_all Q l" using Cons.prems(2,3) by auto
    have b: "list_all Q []" by simp
    have "(\<forall>l\<in>set l1. list_all Q l) \<and> list_all Q c1"
      by (rule splitChars_all[OF codePoints_all[OF w] a b sc])
    then show ?thesis using Cons.IH[OF rest _ _ run] by blast
  qed
qed

lemma wrapText_printable:
  "\<forall>l\<in>set (wrapText False text maxWidth fnt fsize). list_all printable l"
proof -
  obtain lines current where
    run: "wrapWords (textWidth fnt fsize) maxWidth (splitWs (processText False text)) ([], [])
            = (lines, current)"
    by (cases "wrapWords (textWidth fnt fsize) maxWidth (splitWs (processText False text))
                 ([], [])")
  have "printable 0x20" by (simp add: printable_def)
  then have "(\<forall>l\<in>set lines. list_all printable l) \<and> list_all printable current"
    using wrapWords_all[OF splitWs_all[OF printable_processText] _ _ _ run] by simp
  moreover have "wrapText False text maxWidth fnt fsize
          = (if truthy current then lines @ [current] else lines)"
    using run by (simp add: wrapText_def)
  ultimately show ?thesis by auto
qed

lemma texts_plain:
  assumes "useUnicode sc = False"
  shows "texts sc (DrawTitle t) = [processText False t]"
    and "texts sc (DrawSectionHeader t) = [processText False t]"
    and "texts sc (DrawWrapped t) = bodyLines sc t"
    and "texts sc (MoveDown d) = []"
proof -
  show "texts sc (DrawTitle t) = [processText False t]"
    and "texts sc (DrawSectionHeader t) = [processText False t]"
    using assms by (simp_all add: rendered_printable printable_processText)
  have "\<forall>l\<in>set (bodyLines sc t). list_all printable l"
    using assms wrapText_printable by (simp add: bodyLines_def)
  then have "map (rendered (font sc)) (bodyLines sc t) = bodyLines sc t"
    by (induction "bodyLines sc t") (auto simp: rendered_printable map_idI)
  then show "texts sc (DrawWrapped t) = bodyLines sc t" by simp
  show "texts sc (MoveDown d) = []" by simp
qed

section \<open>The texts of a document that echoes its parameters\<close>

lemma processText_printable: "list_all printable t \<Longrightarrow> processText False t = t"
  by (simp add: processText_def replace_printable)

lemma texts_extraLines:
  assumes "useUnicode sc = False"
  shows "concat (map (texts sc) (map (\<lambda>(key, rawVal). DrawWrapped (f key rawVal)) xs))
           = concat (map (\<lambda>(key, rawVal). bodyLines sc (f key rawVal)) xs)"
  using texts_plain(3)[OF assms] by (induction xs) auto

lemma echo_contents:
  assumes "layoutOf lib req = Inr s" and "params req = ps" and "ps \<noteq> []"
  shows "\<exists>fonts. embedFonts lib = Inr fonts
       \<and> map content (drawn s)
           = [processText False (titleParam ps)]
             @ (case textParam ps of
                  Some v \<Rightarrow>
                    if v = [] then [] else bodyLines (scopeOf lib fonts) (take MAX_VALUE_LEN v)
                | None \<Rightarrow> [])
             @ (if extraParams ps = [] then []
                else [js ''Extra information'']
                     @ (if showsNote ps then bodyLines (scopeOf lib fonts) noteText else [])
                     @ concat (map (\<lambda>(key, rawVal).
                          bodyLines (scopeOf lib fonts)
                            (key @ js '' = '' @ take MAX_VALUE_LEN rawVal)) (extraParams ps)))
             @ [js ''Disclaimer'']
             @ bodyLines (scopeOf lib fonts) (disclaimerText False)"
proof -
  obtain fonts where f: "embedFonts lib = Inr fonts" and
    c: "map content (drawn s) = concat (map (texts (scopeOf lib fonts)) (commands False req))"
    using contents_layoutOf[OF assms(1)] by blast
  let ?sc = "scopeOf lib fonts"
  have u: "useUnicode ?sc = False" by (simp add: scopeOf_def)
  have cm: "commands False req = echoCommands False ps"
    using assms(2,3) by (simp add: commands_def)
  have h1: "processText False (js ''Extra information'') = js ''Extra information''"
    by (rule processText_printable) (simp add: js_def printable_def)
  have h2: "processText False (js ''Disclaimer'') = js ''Disclaimer''"
    by (rule processText_printable) (simp add: js_def printable_def)
  have x: "concat (map (texts ?sc) (extraLines ps))
             = concat (map (\<lambda>(key, rawVal).
                          bodyLines ?sc (key @ js '' = '' @ take MAX_VALUE_LEN rawVal))
                 (extraParams ps))"
    unfolding extraLines_def by (rule texts_extraLines[OF u])
  have "concat (map (texts ?sc) (echoCommands False ps))
           = [processText False (titleParam ps)]
             @ (case textParam ps of
                  Some v \<Rightarrow> if v = [] then [] else bodyLines ?sc (take MAX_VALUE_LEN v)
                | None \<Rightarrow> [])
             @ (if extraParams ps = [] then []
                else [js ''Extra information'']
                     @ (if showsNote ps then bodyLines ?sc noteText else [])
                     @ concat (map (\<lambda>(key, rawVal).
                          bodyLines ?sc (key @ js '' = '' @ take MAX_VALUE_LEN rawVal))
                          (extraParams ps)))
             @ [js ''Disclaimer'']
             @ bodyLines ?sc (disclaimerText False)"
    unfolding echoCommands_def
    by (simp add: texts_plain[OF u] x h1 h2 truthy_def del: texts.simps
        split: option.splits)
  then show ?thesis using f c cm by auto
qed

lemma first_entry: "k \<notin> set (map fst pre) \<Longrightarrow> map_of (pre @ (k, v) # post) k = Some v"
  by (induction pre) auto

section \<open>Title and text\<close>

lemma short_layouts:
  "map_sum asString (\<lambda>s. content (hd (drawn s)))
     (layoutOf sampleLib (urlOf [(js ''title'', [])])) = Inr (js ''PDF'')"
  "map_sum asString (\<lambda>s. content (hd (drawn s)))
     (layoutOf sampleLib (urlOf [(js ''title'', js ''Hello world!'')]))
     = Inr (js ''Hello world!'')"
  by code_simp+

text \<open>
  Claim C5, as amended. For every request whose title parameter has a value of length
  \<open>L\<close> with \<open>1 \<le> L \<le> 500\<close>, the title of the document is that value, which is its
  truncation to \<open>min L 500\<close> characters, and the text drawn for it is \<open>processText\<close> of
  the value. Nothing is said of longer values.
\<close>

theorem title_within_limit_is_rendered:
  assumes "searchGet (params req) (js ''title'') = Some v"
    and "1 \<le> length v" and "length v \<le> MAX_VALUE_LEN"
  shows "hd (commands False req) = DrawTitle (take (min (length v) MAX_VALUE_LEN) v)
       \<and> (\<forall>s. layoutOf lib req = Inr s \<longrightarrow>
             content (hd (drawn s)) = processText False (take (min (length v) MAX_VALUE_LEN) v))"
proof -
  have t: "titleParam (params req) = v"
    using assms(1,2) by (auto simp: titleParam_def truthy_def)
  have v: "take (min (length v) MAX_VALUE_LEN) v = v" using assms(3) by simp
  obtain cs where c: "commands False req = DrawTitle v # cs"
    using echo_head[of False "params req"] commands_echo[OF searchGet_nonempty[OF assms(1)]] t
    by auto
  show ?thesis using c title_is_first_drawing[OF _ c] v by simp
qed

theorem title_within_limit_is_rendered_witness:
  "searchGet (params (urlOf [(js ''title'', js ''Hello world!'')])) (js ''title'')
     = Some (js ''Hello world!'')
   \<and> hd (commands False (urlOf [(js ''title'', js ''Hello world!'')]))
       = DrawTitle (js ''Hello world!'')
   \<and> map_sum asString (\<lambda>s. content (hd (drawn s)))
       (layoutOf sampleLib (urlOf [(js ''title'', js ''Hello world!'')]))
       = Inr (processText False (js ''Hello world!''))"
proof -
  let ?req = "urlOf [(js ''title'', js ''Hello world!'')]"
  have g: "searchGet (params ?req) (js ''title'') = Some (js ''Hello world!'')"
    by (simp add: urlOf_def searchGet_def)
  have l: "1 \<le> length (js ''Hello world!'')" "length (js ''Hello world!'') \<le> MAX_VALUE_LEN"
    by (simp_all add: js_def MAX_VALUE_LEN_def)
  have m: "take (min (length (js ''Hello world!'')) MAX_VALUE_LEN) (js ''Hello world!'')
             = js ''Hello world!''"
    using l(2) by simp
  obtain s where s: "layoutOf sampleLib ?req = Inr s"
    using short_layouts(2) by (cases "layoutOf sampleLib ?req") auto
  from title_within_limit_is_rendered[OF g l, of sampleLib] s show ?thesis
    unfolding m using g by simp
qed

text \<open>
  The claim as stated fails for a value of 501 characters, which is drawn in full, and
  for the empty value, for which \<open>PDF\<close> is drawn.
\<close>

theorem title_counterexample:
  "hd (commands False (urlOf [(js ''title'', replicate 501 0x61)]))
     = DrawTitle (replicate 501 0x61)
   \<and> map_sum asString (\<lambda>s. length (content (hd (drawn s))))
       (layoutOf sampleLib (urlOf [(js ''title'', replicate 501 0x61)])) = Inr 501
   \<and> hd (commands False (urlOf [(js ''title'', [])])) = DrawTitle (js ''PDF'')"
  by code_simp

text \<open>
  Claim C7. For every request whose text parameter has a value of more than 500
  characters, the second call of the document, after the title, is the paragraph of the
  first 500 characters of the value, and in every completed layout the texts drawn are
  the title followed by the wrapped lines of these 500 characters; \<open>processText\<close> and
  the wrapping work on the truncated value, and the lines hold its characters after
  \<open>processText\<close>, white space apart, in order.
\<close>

theorem long_text_is_truncated:
  assumes "searchGet (params req) (js ''text'') = Some v" and "MAX_VALUE_LEN < length v"
  shows "take 2 (commands False req)
           = [DrawTitle (titleParam (params req)), DrawWrapped (take MAX_VALUE_LEN v)]
       \<and> length (take MAX_VALUE_LEN v) = MAX_VALUE_LEN
       \<and> exec sc (DrawWrapped (take MAX_VALUE_LEN v)) s0
           = drawLines sc margin bodySize (font sc)
               (wrapText (useUnicode sc) (take MAX_VALUE_LEN v) (maxTextWidth sc) (font sc)
                  bodySize) s0
       \<and> (\<forall>s. layoutOf lib req = Inr s \<longrightarrow>
            (\<exists>fonts rest. embedFonts lib = Inr fonts
               \<and> map content (drawn s)
                   = processText False (titleParam (params req))
                     # bodyLines (scopeOf lib fonts) (take MAX_VALUE_LEN v) @ rest
               \<and> filter (\<lambda>c. \<not> isSpace c)
                     (concat (bodyLines (scopeOf lib fonts) (take MAX_VALUE_LEN v)))
                   = filter (\<lambda>c. \<not> isSpace c) (processText False (take MAX_VALUE_LEN v))))"
proof -
  have ne: "v \<noteq> []" using assms(2) by auto
  have pn: "params req \<noteq> []" using searchGet_nonempty[OF assms(1)] .
  have "take 2 (echoCommands False (params req))
           = [DrawTitle (titleParam (params req)), DrawWrapped (take MAX_VALUE_LEN v)]"
    using ne assms(1) by (simp add: echoCommands_def textParam_def truthy_def)
  then have a: "take 2 (commands False req)
           = [DrawTitle (titleParam (params req)), DrawWrapped (take MAX_VALUE_LEN v)]"
    using commands_echo[OF pn] by simp
  have tp: "textParam (params req) = Some v" using assms(1) by (simp add: textParam_def)
  have d: "\<exists>fonts rest. embedFonts lib = Inr fonts
               \<and> map content (drawn s)
                   = processText False (titleParam (params req))
                     # bodyLines (scopeOf lib fonts) (take MAX_VALUE_LEN v) @ rest
               \<and> filter (\<lambda>c. \<not> isSpace c)
                     (concat (bodyLines (scopeOf lib fonts) (take MAX_VALUE_LEN v)))
                   = filter (\<lambda>c. \<not> isSpace c) (processText False (take MAX_VALUE_LEN v))"
    if lay: "layoutOf lib req = Inr s" for s
  proof -
    obtain fonts where f: "embedFonts lib = Inr fonts" and
      m: "map content (drawn s)
           = [processText False (titleParam (params req))]
             @ (case textParam (params req) of
                  Some v \<Rightarrow>
                    if v = [] then [] else bodyLines (scopeOf lib fonts) (take MAX_VALUE_LEN v)
                | None \<Rightarrow> [])
             @ (if extraParams (params req) = [] then []
                else [js ''Extra information'']
                     @ (if showsNote (params req) then bodyLines (scopeOf lib fonts) noteText
                        else [])
                     @ concat (map (\<lambda>(key, rawVal).
                          bodyLines (scopeOf lib fonts)
                            (key @ js '' = '' @ take MAX_VALUE_LEN rawVal))
                          (extraParams (params req))))
             @ [js ''Disclaimer'']
             @ bodyLines (scopeOf lib fonts) (disclaimerText False)"
      using echo_contents[OF lay refl pn] by blast
    have k: "filter (\<lambda>c. \<not> isSpace c)
                     (concat (bodyLines (scopeOf lib fonts) (take MAX_VALUE_LEN v)))
                   = filter (\<lambda>c. \<not> isSpace c) (processText False (take MAX_VALUE_LEN v))"
      using wrapText_keeps_characters[of False] by (simp add: bodyLines_def scopeOf_def)
    show ?thesis using f m k tp ne by auto
  qed
  show ?thesis using a d assms(2) by (simp add: drawWrapped_def)
qed

lemma longText_contents:
  "map_sum asString (\<lambda>s. map content (drawn s)) (layoutOf sampleLib longText)
     = Inr [js ''PDF'', replicate 85 0x61, replicate 85 0x61, replicate 85 0x61,
            replicate 85 0x61, replicate 85 0x61, replicate 75 0x61, js ''Disclaimer'',
            disclaimerText False]"
  by code_simp

theorem long_text_is_truncated_witness:
  "searchGet (params longText) (js ''text'') = Some (replicate 501 0x61)
   \<and> MAX_VALUE_LEN < length (replicate 501 (0x61 :: jschar))
   \<and> take 2 (commands False longText)
       = [DrawTitle (js ''PDF''), DrawWrapped (replicate 500 0x61)]
   \<and> map_sum asString (\<lambda>s. map content (drawn s)) (layoutOf sampleLib longText)
     = Inr [js ''PDF'', replicate 85 0x61, replicate 85 0x61, replicate 85 0x61,
            replicate 85 0x61, replicate 85 0x61, replicate 75 0x61, js ''Disclaimer'',
            disclaimerText False]"
proof -
  have a: "searchGet (params longText) (js ''text'') = Some (replicate 501 0x61)"
    by (simp add: longText_def urlOf_def searchGet_def)
  have b: "MAX_VALUE_LEN < length (replicate 501 (0x61 :: jschar))"
    by (simp add: MAX_VALUE_LEN_def)
  have c: "titleParam (params longText) = js ''PDF''"
    by (simp add: longText_def urlOf_def titleParam_def searchGet_def js_def)
  from long_text_is_truncated[OF a b, where lib = sampleLib]
  have "take 2 (commands False longText)
       = [DrawTitle (titleParam (params longText)),
          DrawWrapped (take MAX_VALUE_LEN (replicate 501 0x61))]"
    by blast
  then show ?thesis using a b longText_contents unfolding c by (simp add: MAX_VALUE_LEN_def)
qed

text \<open>
  Claim C10. For every request whose title parameter is present with the empty string
  as its value, the title of the document is the default \<open>PDF\<close>, and \<open>PDF\<close> is the text
  drawn for it.
\<close>

theorem empty_title_defaults_to_PDF:
  assumes "searchGet (params req) (js ''title'') = Some []"
  shows "hd (commands False req) = DrawTitle (js ''PDF'')
       \<and> (\<forall>s. layoutOf lib req = Inr s \<longrightarrow> content (hd (drawn s)) = js ''PDF'')"
proof -
  have t: "titleParam (params req) = js ''PDF''"
    using assms by (simp add: titleParam_def truthy_def)
  obtain cs where c: "commands False req = DrawTitle (js ''PDF'') # cs"
    using echo_head[of False "params req"] commands_echo[OF searchGet_nonempty[OF assms]] t
    by auto
  have "processText False (js ''PDF'') = js ''PDF''"
    by (simp add: processText_def truthy_def replaceNonPrintable_def printable_def js_def)
  then show ?thesis using c title_is_first_drawing[OF _ c] by simp
qed

theorem empty_title_defaults_to_PDF_witness:
  "searchGet (params (urlOf [(js ''title'', [])])) (js ''title'') = Some []
   \<and> hd (commands False (urlOf [(js ''title'', [])])) = DrawTitle (js ''PDF'')
   \<and> map_sum asString (\<lambda>s. content (hd (drawn s)))
       (layoutOf sampleLib (urlOf [(js ''title'', [])])) = Inr (js ''PDF'')"
proof -
  let ?req = "urlOf [(js ''title'', [])]"
  have g: "searchGet (params ?req) (js ''title'') = Some []"
    by (simp add: urlOf_def searchGet_def)
  obtain s where s: "layoutOf sampleLib ?req = Inr s"
    using short_layouts(1) by (cases "layoutOf sampleLib ?req") auto
  from empty_title_defaults_to_PDF[OF g, of sampleLib] s g show ?thesis by simp
qed

section \<open>Errors\<close>

















section \<open>The parameters that are echoed\<close>

lemma params_by_kind:
  "length ps = length (filter nonReserved ps)
     + length (filter (\<lambda>p. fst p = js ''title'') ps)
     + length (filter (\<lambda>p. fst p = js ''text'') ps)"
  by (induction ps) (auto simp: nonReserved_def js_def)

lemma searchHas_count: "searchHas ps k \<longleftrightarrow> 0 < length (filter (\<lambda>p. fst p = k) ps)"
  by (induction ps) (auto simp: searchHas_def)

text \<open>More than 50 other parameters always bring the note.\<close>

lemma note_when_over_cap:
  assumes "MAX_PARAMS < length (filter nonReserved ps)"
  shows "showsNote ps"
proof -
  have "(if searchHas ps (js ''title'') then 1 else 0 :: int)
          \<le> int (length (filter (\<lambda>p. fst p = js ''title'') ps))"
    and "(if searchHas ps (js ''text'') then 1 else 0 :: int)
          \<le> int (length (filter (\<lambda>p. fst p = js ''text'') ps))"
    unfolding searchHas_count by (simp_all only: split: if_splits) linarith+
  moreover have "int (length ps) = int (length (filter nonReserved ps))
     + int (length (filter (\<lambda>p. fst p = js ''title'') ps))
     + int (length (filter (\<lambda>p. fst p = js ''text'') ps))"
    using params_by_kind[of ps] by linarith
  ultimately show ?thesis using assms unfolding showsNote_def by linarith
qed

text \<open>Where \<open>title\<close> and \<open>text\<close> occur at most once each, the note is drawn exactly for
  more than 50 other parameters.\<close>

lemma note_iff_over_cap:
  assumes "length (filter (\<lambda>p. fst p = js ''title'') ps) \<le> 1"
    and "length (filter (\<lambda>p. fst p = js ''text'') ps) \<le> 1"
  shows "showsNote ps \<longleftrightarrow> MAX_PARAMS < length (filter nonReserved ps)"
proof -
  have "(if searchHas ps (js ''title'') then 1 else 0 :: int)
          = int (length (filter (\<lambda>p. fst p = js ''title'') ps))"
    and "(if searchHas ps (js ''text'') then 1 else 0 :: int)
          = int (length (filter (\<lambda>p. fst p = js ''text'') ps))"
    using assms unfolding searchHas_count by (simp_all only: split: if_splits) linarith+
  moreover have "int (length ps) = int (length (filter nonReserved ps))
     + int (length (filter (\<lambda>p. fst p = js ''title'') ps))
     + int (length (filter (\<lambda>p. fst p = js ''text'') ps))"
    using params_by_kind[of ps] by linarith
  ultimately show ?thesis unfolding showsNote_def by linarith
qed

text \<open>
  Claim C3 says that the note is drawn exactly when more than 50 parameters other than
  \<open>title\<close> and \<open>text\<close> are given. The handler counts \<open>params.length\<close> minus one for each of
  the two names that occurs, so a second \<open>title\<close> counts as another parameter: for
  \<open>twoTitles\<close> there are exactly 50 others, all drawn, and the note is drawn.
\<close>

theorem note_shown_at_exactly_fifty:
  "length (filter nonReserved twoTitles) = 50
   \<and> showsNote twoTitles
   \<and> take 3 (echoCommands False twoTitles)
       = [DrawTitle (js ''a''), DrawSectionHeader (js ''Extra information''),
          DrawWrapped noteText]"
  by code_simp

text \<open>
  Claim C6, as amended. For every request with parameters whose layout completes: the
  title is the value of the first entry named \<open>title\<close> (or \<open>PDF\<close> when that value is
  empty), the text is the value of the first entry named \<open>text\<close>, and the texts drawn are
  the title, the lines of the text, and in the section of extra information the lines of
  \<open>key = value\<close> for every entry that is not named \<open>title\<close> or \<open>text\<close>, in query order,
  up to 50 entries: entries that repeat a name are not dropped. The lines of a paragraph
  hold its characters after \<open>processText\<close>, white space apart, in order.
\<close>

theorem first_title_every_extra:
  assumes "layoutOf lib req = Inr s" and "params req = ps" and "ps \<noteq> []"
  shows "(\<forall>pre v post. ps = pre @ (js ''title'', v) # post \<and> js ''title'' \<notin> set (map fst pre)
            \<longrightarrow> titleParam ps = (if v = [] then js ''PDF'' else v))
       \<and> (\<forall>pre v post. ps = pre @ (js ''text'', v) # post \<and> js ''text'' \<notin> set (map fst pre)
            \<longrightarrow> textParam ps = Some v)
       \<and> extraParams ps
           = take 50 (filter (\<lambda>(key, rawVal). key \<noteq> js ''title'' \<and> key \<noteq> js ''text'') ps)
       \<and> (\<exists>fonts. embedFonts lib = Inr fonts
            \<and> map content (drawn s)
                = [processText False (titleParam ps)]
                  @ (case textParam ps of
                       Some v \<Rightarrow>
                         if v = [] then [] else bodyLines (scopeOf lib fonts) (take 500 v)
                     | None \<Rightarrow> [])
                  @ (if extraParams ps = [] then []
                     else [js ''Extra information'']
                          @ (if showsNote ps then bodyLines (scopeOf lib fonts) noteText else [])
                          @ concat (map (\<lambda>(key, rawVal).
                               bodyLines (scopeOf lib fonts) (key @ js '' = '' @ take 500 rawVal))
                               (extraParams ps)))
                  @ [js ''Disclaimer'']
                  @ bodyLines (scopeOf lib fonts) (disclaimerText False))
       \<and> (\<forall>fonts t. filter (\<lambda>c. \<not> isSpace c) (concat (bodyLines (scopeOf lib fonts) t))
                     = filter (\<lambda>c. \<not> isSpace c) (processText False t))"
proof -
  have k: "\<forall>fonts t. filter (\<lambda>c. \<not> isSpace c) (concat (bodyLines (scopeOf lib fonts) t))
                     = filter (\<lambda>c. \<not> isSpace c) (processText False t)"
    using wrapText_keeps_characters[of False] by (simp add: bodyLines_def scopeOf_def)
  have a: "titleParam ps = (if v = [] then js ''PDF'' else v)"
    if "ps = pre @ (js ''title'', v) # post" and "js ''title'' \<notin> set (map fst pre)"
    for pre v post
    using first_entry[OF that(2), of v post] that(1)
    by (simp add: titleParam_def searchGet_def truthy_def)
  have b: "textParam ps = Some v"
    if "ps = pre @ (js ''text'', v) # post" and "js ''text'' \<notin> set (map fst pre)"
    for pre v post
    using first_entry[OF that(2), of v post] that(1)
    by (simp add: textParam_def searchGet_def)
  have "nonReserved = (\<lambda>(key, rawVal). key \<noteq> js ''title'' \<and> key \<noteq> js ''text'')"
    by (auto simp: nonReserved_def)
  then have c: "extraParams ps
           = take 50 (filter (\<lambda>(key, rawVal). key \<noteq> js ''title'' \<and> key \<noteq> js ''text'') ps)"
    by (simp add: extraParams_def MAX_PARAMS_def)
  have d: "\<exists>fonts. embedFonts lib = Inr fonts
            \<and> map content (drawn s)
                = [processText False (titleParam ps)]
                  @ (case textParam ps of
                       Some v \<Rightarrow>
                         if v = [] then [] else bodyLines (scopeOf lib fonts) (take 500 v)
                     | None \<Rightarrow> [])
                  @ (if extraParams ps = [] then []
                     else [js ''Extra information'']
                          @ (if showsNote ps then bodyLines (scopeOf lib fonts) noteText else [])
                          @ concat (map (\<lambda>(key, rawVal).
                               bodyLines (scopeOf lib fonts) (key @ js '' = '' @ take 500 rawVal))
                               (extraParams ps)))
                  @ [js ''Disclaimer'']
                  @ bodyLines (scopeOf lib fonts) (disclaimerText False)"
    using echo_contents[OF assms] unfolding MAX_VALUE_LEN_def .
  have a': "\<forall>pre v post. ps = pre @ (js ''title'', v) # post \<and> js ''title'' \<notin> set (map fst pre)
            \<longrightarrow> titleParam ps = (if v = [] then js ''PDF'' else v)"
    using a by blast
  have b': "\<forall>pre v post. ps = pre @ (js ''text'', v) # post \<and> js ''text'' \<notin> set (map fst pre)
            \<longrightarrow> textParam ps = Some v"
    using b by blast
  show ?thesis using a' b' c d k by (intro conjI)
qed

lemma repeated_contents:
  "map_sum asString (\<lambda>s. map content (drawn s)) (layoutOf sampleLib repeated)
     = Inr [js ''a'', js ''Extra information'', js ''x = 1'', js ''x = 2'', js ''Disclaimer'',
            disclaimerText False]"
  by code_simp

theorem first_title_every_extra_witness:
  "map_sum asString (\<lambda>s. map content (drawn s)) (layoutOf sampleLib repeated)
     = Inr [js ''a'', js ''Extra information'', js ''x = 1'', js ''x = 2'', js ''Disclaimer'',
            disclaimerText False]
   \<and> titleParam (params repeated) = js ''a''
   \<and> extraParams (params repeated) = [(js ''x'', js ''1''), (js ''x'', js ''2'')]"
proof -
  obtain s where s: "layoutOf sampleLib repeated = Inr s"
    using repeated_contents by (cases "layoutOf sampleLib repeated") auto
  have ne: "params repeated \<noteq> []" by (simp add: repeated_def urlOf_def)
  have sp: "params repeated = [] @ (js ''title'', js ''a'')
              # [(js ''x'', js ''1''), (js ''title'', js ''b''), (js ''x'', js ''2'')]"
    by (simp add: repeated_def urlOf_def)
  have fr: "js ''title'' \<notin> set (map fst ([] :: (jsstring \<times> jsstring) list))" by simp
  from first_title_every_extra[OF s refl ne] sp fr
  have "titleParam (params repeated) = (if js ''a'' = [] then js ''PDF'' else js ''a'')"
    by blast
  moreover from first_title_every_extra[OF s refl ne]
  have "extraParams (params repeated)
      = take 50 (filter (\<lambda>(key, rawVal). key \<noteq> js ''title'' \<and> key \<noteq> js ''text'')
          (params repeated))"
    by blast
  ultimately show ?thesis using repeated_contents
    by (simp add: repeated_def urlOf_def js_def)
qed

text \<open>
  The claim as stated fails for \<open>?a=1&a=2\<close>: the name \<open>a\<close> has two lines.
\<close>

theorem repeated_key_counterexample:
  "echoCommands False [(js ''a'', js ''1''), (js ''a'', js ''2'')]
     = [DrawTitle (js ''PDF''), DrawSectionHeader (js ''Extra information''),
        DrawWrapped (js ''a = 1''), DrawWrapped (js ''a = 2''), MoveDown lineHeight,
        DrawSectionHeader (js ''Disclaimer''), DrawWrapped (disclaimerText False)]"
  by code_simp

end
